theory Spec2Isabelle
  imports Complex_Main
begin

section \<open>Cross-entropy method on CartPole: data model\<close>

text \<open>
  The notebook \<^verbatim>\<open>cart-pole.ipynb\<close> declares two named tuples,
  \<^verbatim>\<open>EpisodeStep(observation, action)\<close> and \<^verbatim>\<open>Episode(reward, steps)\<close>.
  Observations are opaque to the control flow (a type parameter); an action is the index
  returned by the sampler. Python floats are idealised as real numbers: rounding, NaN and
  infinities are outside this model. The exceptions that occur are the three below:
  \<^verbatim>\<open>ValueError\<close> and \<^verbatim>\<open>IndexError\<close> are NumPy's, \<^verbatim>\<open>RuntimeError\<close> is torch's.
\<close>

record 'obs EpisodeStep =
  observation :: 'obs
  action :: nat

record 'obs Episode =
  reward :: real
  steps :: "'obs EpisodeStep list"

datatype error = ValueError | IndexError | RuntimeError

section \<open>The library calls of \<^verbatim>\<open>filter_batch\<close>\<close>

text \<open>
  Modelled from the spec: \<^verbatim>\<open>np.percentile\<close> is NumPy's, not the repository's. The spec
  fixes it as the value at \<open>q\<close> (0 to 100) of the sample "using linear interpolation
  between order statistics": on the sorted sample \<open>s\<close> of length \<open>n\<close> the virtual index is
  \<open>q / 100 * (n - 1)\<close>, and the result interpolates between the two neighbouring order
  statistics. NumPy rejects \<open>q\<close> outside [0, 100] with a ValueError before it looks at the
  data, and an empty sample has no order statistic to take (IndexError).
\<close>

definition percentile :: "real list \<Rightarrow> real \<Rightarrow> error + real" where
  "percentile a q =
     (if q < 0 \<or> 100 < q then Inl ValueError
      else if a = [] then Inl IndexError
      else
        let s = sort a;
            n = length a;
            idx = q / 100 * real (n - 1);
            lo = nat \<lfloor>idx\<rfloor>;
            hi = min (lo + 1) (n - 1);
            t = idx - real lo
        in Inr (s ! lo + (s ! hi - s ! lo) * t))"

text \<open>\<^verbatim>\<open>np.mean\<close>: the arithmetic mean. It is only reached on a non-empty sample, since
  the percentile is taken first.\<close>

definition mean :: "real list \<Rightarrow> real" where
  "mean a = sum_list a / real (length a)"

section \<open>\<^verbatim>\<open>filter_batch\<close>\<close>

text \<open>
  The \<^verbatim>\<open>for example in batch\<close> loop, with its two accumulators. An episode whose
  reward is below the bound is skipped by \<^verbatim>\<open>continue\<close>; otherwise both lists are
  extended by the episode's steps.
\<close>

fun elite_loop ::
  "'obs Episode list \<Rightarrow> real \<Rightarrow> 'obs list \<times> nat list \<Rightarrow> 'obs list \<times> nat list" where
  "elite_loop [] reward_bound (train_obs, train_act) = (train_obs, train_act)"
| "elite_loop (example # rest) reward_bound (train_obs, train_act) =
     (if reward example < reward_bound
      then elite_loop rest reward_bound (train_obs, train_act)
      else elite_loop rest reward_bound
             (train_obs @ map observation (steps example),
              train_act @ map action (steps example)))"

text \<open>The tensor constructors at the end only change the container; the result keeps
  the two lists as they are.\<close>

definition filter_batch ::
  "'obs Episode list \<Rightarrow> real \<Rightarrow> error + ('obs list \<times> nat list \<times> real \<times> real)" where
  "filter_batch batch pct =
     (let rewards = map reward batch in
      case percentile rewards pct of
        Inl e \<Rightarrow> Inl e
      | Inr reward_bound \<Rightarrow>
          let reward_mean = mean rewards;
              (train_obs, train_act) = elite_loop batch reward_bound ([], [])
          in Inr (train_obs, train_act, reward_bound, reward_mean))"

section \<open>The collaborators\<close>

text \<open>
  The environment, the network, the softmax layer, the sampler and the optimiser are
  libraries (gym, torch, numpy). The notebook's control flow only calls them, so they are
  parameters of the model:
  \<^item> \<open>env_reset\<close> and \<open>env_step\<close> are \<^verbatim>\<open>env.reset()\<close> and \<^verbatim>\<open>env.step(action)\<close> on an
    explicit environment state; a step returns the next observation, the reward and
    \<^verbatim>\<open>is_done\<close> (the fourth component is discarded by the source);
  \<^item> \<open>forward\<close> is \<^verbatim>\<open>net(torch.FloatTensor([obs]))\<close>, the scores for one observation;
  \<^item> \<open>softmax\<close> is \<^verbatim>\<open>nn.Softmax(dim=1)\<close> followed by \<^verbatim>\<open>.data.numpy()[0]\<close>;
  \<^item> \<open>sample\<close> is \<^verbatim>\<open>np.random.choice(len(act_probs), p=act_probs)\<close>, with the state
    of the random generator made explicit;
  \<^item> \<open>optimize\<close> is the gradient step on the elite pairs (\<^verbatim>\<open>zero_grad\<close>, the forward
    pass \<^verbatim>\<open>net(obs_v)\<close>, \<^verbatim>\<open>CrossEntropyLoss\<close>, \<^verbatim>\<open>backward\<close>, \<^verbatim>\<open>optimizer.step\<close>); it
    returns the updated network and the value of the loss.

  Each of them may raise instead of returning (\<open>Inl\<close>): the sampler rejects probabilities
  that contain NaN, the forward pass of the update rejects a tensor of the wrong shape,
  an environment rejects an action outside its action space. The notebook has no
  \<^verbatim>\<open>raise\<close>, \<^verbatim>\<open>assert\<close> or \<^verbatim>\<open>try\<close> of its own, so an exception of a collaborator
  ends the generator and the program at that statement.
\<close>

record ('obs, 'env, 'net, 'score, 'probs, 'rng) collaborators =
  env_reset :: "'env \<Rightarrow> error + ('obs \<times> 'env)"
  env_step :: "'env \<Rightarrow> nat \<Rightarrow> error + (('obs \<times> real \<times> bool) \<times> 'env)"
  forward :: "'net \<Rightarrow> 'obs \<Rightarrow> error + 'score"
  softmax :: "'score \<Rightarrow> error + 'probs"
  sample :: "'rng \<Rightarrow> 'probs \<Rightarrow> error + (nat \<times> 'rng)"
  optimize :: "'net \<Rightarrow> 'obs list \<Rightarrow> nat list \<Rightarrow> error + ('net \<times> real)"

section \<open>\<^verbatim>\<open>iterate_batches\<close>\<close>

text \<open>The local variables of the generator, with the state of the environment and of
  the random generator it drives.\<close>

record ('obs, 'env, 'rng) generator =
  g_batch :: "'obs Episode list"
  g_episode_reward :: real
  g_episode_steps :: "'obs EpisodeStep list"
  g_obs :: 'obs
  g_env :: 'env
  g_rng :: 'rng

text \<open>The statements before \<^verbatim>\<open>while True\<close>.\<close>

definition start ::
  "('obs, 'env, 'net, 'score, 'probs, 'rng) collaborators \<Rightarrow> 'env \<Rightarrow> 'rng \<Rightarrow>
   error + ('obs, 'env, 'rng) generator" where
  "start w env0 rng0 =
     (case env_reset w env0 of
        Inl e \<Rightarrow> Inl e
      | Inr (ob, env1) \<Rightarrow>
          Inr \<lparr>g_batch = [], g_episode_reward = 0, g_episode_steps = [],
               g_obs = ob, g_env = env1, g_rng = rng0\<rparr>)"

text \<open>
  One pass through the body of \<^verbatim>\<open>while True\<close>, statement by statement. The first
  component of a result is the batch handed to the consumer when the pass reaches
  \<^verbatim>\<open>yield batch\<close>; the state returned with it is the one after the generator is
  resumed (\<^verbatim>\<open>batch = []\<close>, \<^verbatim>\<open>obs = next_obs\<close>).
\<close>

definition loop_body ::
  "('obs, 'env, 'net, 'score, 'probs, 'rng) collaborators \<Rightarrow> 'net \<Rightarrow> nat \<Rightarrow>
   ('obs, 'env, 'rng) generator \<Rightarrow>
   error + ('obs Episode list option \<times> ('obs, 'env, 'rng) generator)" where
  "loop_body w net batch_size g =
     (case forward w net (g_obs g) of
        Inl e \<Rightarrow> Inl e
      | Inr scores \<Rightarrow>
     (case softmax w scores of
        Inl e \<Rightarrow> Inl e
      | Inr act_probs \<Rightarrow>
     (case sample w (g_rng g) act_probs of
        Inl e \<Rightarrow> Inl e
      | Inr (act, rng1) \<Rightarrow>
     (case env_step w (g_env g) act of
        Inl e \<Rightarrow> Inl e
      | Inr ((next_obs, rew, is_done), env1) \<Rightarrow>
          let episode_reward1 = g_episode_reward g + rew;
              episode_steps1 = g_episode_steps g @ [\<lparr>observation = g_obs g, action = act\<rparr>]
          in if is_done then
               let batch1 = g_batch g @ [\<lparr>reward = episode_reward1, steps = episode_steps1\<rparr>]
               in (case env_reset w env1 of
                     Inl e \<Rightarrow> Inl e
                   | Inr (next_obs1, env2) \<Rightarrow>
                       if length batch1 = batch_size
                       then Inr (Some batch1,
                             \<lparr>g_batch = [], g_episode_reward = 0, g_episode_steps = [],
                              g_obs = next_obs1, g_env = env2, g_rng = rng1\<rparr>)
                       else Inr (None,
                             \<lparr>g_batch = batch1, g_episode_reward = 0, g_episode_steps = [],
                              g_obs = next_obs1, g_env = env2, g_rng = rng1\<rparr>))
             else Inr (None,
                   \<lparr>g_batch = g_batch g, g_episode_reward = episode_reward1,
                    g_episode_steps = episode_steps1,
                    g_obs = next_obs, g_env = env1, g_rng = rng1\<rparr>)))))"

text \<open>
  Pulling one item from the generator runs the body until it yields or a collaborator
  raises. The source loop has no exit of its own, so the number of passes is bounded by
  fuel: \<open>None\<close> means that neither happened within that many passes.
\<close>

fun next_batch ::
  "('obs, 'env, 'net, 'score, 'probs, 'rng) collaborators \<Rightarrow> 'net \<Rightarrow> nat \<Rightarrow> nat \<Rightarrow>
   ('obs, 'env, 'rng) generator \<Rightarrow>
   (error + ('obs Episode list \<times> ('obs, 'env, 'rng) generator)) option" where
  "next_batch w net batch_size 0 g = None"
| "next_batch w net batch_size (Suc fuel) g =
     (case loop_body w net batch_size g of
        Inl e \<Rightarrow> Some (Inl e)
      | Inr (Some b, g1) \<Rightarrow> Some (Inr (b, g1))
      | Inr (None, g1) \<Rightarrow> next_batch w net batch_size fuel g1)"

text \<open>The first \<open>n\<close> items of a running generator, each pulled with the given fuel.\<close>

fun take_batches ::
  "('obs, 'env, 'net, 'score, 'probs, 'rng) collaborators \<Rightarrow> 'net \<Rightarrow> nat \<Rightarrow> nat \<Rightarrow> nat \<Rightarrow>
   ('obs, 'env, 'rng) generator \<Rightarrow> (error + 'obs Episode list list) option" where
  "take_batches w net batch_size fuel 0 g = Some (Inr [])"
| "take_batches w net batch_size fuel (Suc n) g =
     (case next_batch w net batch_size fuel g of
        None \<Rightarrow> None
      | Some (Inl e) \<Rightarrow> Some (Inl e)
      | Some (Inr (b, g1)) \<Rightarrow>
          (case take_batches w net batch_size fuel n g1 of
             None \<Rightarrow> None
           | Some (Inl e) \<Rightarrow> Some (Inl e)
           | Some (Inr bs) \<Rightarrow> Some (Inr (b # bs))))"

text \<open>The first \<open>n\<close> items of \<^verbatim>\<open>iterate_batches(env, net, batch_size)\<close>. A generator
  runs nothing, not even the first reset, before its first item is asked for.\<close>

definition iterate_batches ::
  "('obs, 'env, 'net, 'score, 'probs, 'rng) collaborators \<Rightarrow> 'net \<Rightarrow> nat \<Rightarrow> 'env \<Rightarrow> 'rng \<Rightarrow>
   nat \<Rightarrow> nat \<Rightarrow> (error + 'obs Episode list list) option" where
  "iterate_batches w net batch_size env0 rng0 fuel n =
     (if n = 0 then Some (Inr [])
      else case start w env0 rng0 of
             Inl e \<Rightarrow> Some (Inl e)
           | Inr g \<Rightarrow> take_batches w net batch_size fuel n g)"

section \<open>The training loop\<close>

definition BATCH_SIZE :: nat where
  "BATCH_SIZE = 16"

definition PERCENTILE :: real where
  "PERCENTILE = 70"

text \<open>
  What the \<^verbatim>\<open>for\<close> loop carries from one batch to the next: the network with its
  optimiser, the number of batches pulled so far (the next \<^verbatim>\<open>iter_no\<close>), and the
  lines printed, each \<open>(iter_no, loss, reward_mean, reward_bound)\<close>.
\<close>

record 'net trainer =
  t_net :: 'net
  pulled :: nat
  printed :: "(nat \<times> real \<times> real \<times> real) list"

text \<open>
  The body of the \<^verbatim>\<open>for\<close> loop on one batch: \<^verbatim>\<open>filter_batch\<close>, the update, the
  printed line. The flag returned with the new state is the test \<^verbatim>\<open>reward_m > 199\<close> that
  leads to \<^verbatim>\<open>break\<close>.
\<close>

definition train_step ::
  "('obs, 'env, 'net, 'score, 'probs, 'rng) collaborators \<Rightarrow> 'net trainer \<Rightarrow>
   'obs Episode list \<Rightarrow> error + ('net trainer \<times> bool)" where
  "train_step w t b =
     (case filter_batch b PERCENTILE of
        Inl e \<Rightarrow> Inl e
      | Inr (obs_v, acts_v, reward_b, reward_m) \<Rightarrow>
          (case optimize w (t_net t) obs_v acts_v of
             Inl e \<Rightarrow> Inl e
           | Inr (net1, loss) \<Rightarrow>
               Inr (\<lparr>t_net = net1, pulled = pulled t + 1,
                     printed = printed t @ [(pulled t, loss, reward_m, reward_b)]\<rparr>,
                    199 < reward_m)))"

text \<open>
  The \<^verbatim>\<open>for\<close> loop over a running generator. It has no iteration cap in the source;
  here \<open>iters\<close> bounds the number of batches and \<open>fuel\<close> the passes of the generator per
  batch. \<open>None\<close>: still running when a bound was reached. \<open>Some (Inl e)\<close>: stopped by the
  exception \<open>e\<close>. \<open>Some (Inr t)\<close>: "Solved!" was printed and the loop was left.
\<close>

fun main_loop ::
  "('obs, 'env, 'net, 'score, 'probs, 'rng) collaborators \<Rightarrow> nat \<Rightarrow> nat \<Rightarrow>
   'net trainer \<times> ('obs, 'env, 'rng) generator \<Rightarrow> (error + 'net trainer) option" where
  "main_loop w fuel 0 (t, g) = None"
| "main_loop w fuel (Suc iters) (t, g) =
     (case next_batch w (t_net t) BATCH_SIZE fuel g of
        None \<Rightarrow> None
      | Some (Inl e) \<Rightarrow> Some (Inl e)
      | Some (Inr (b, g1)) \<Rightarrow>
          (case train_step w t b of
             Inl e \<Rightarrow> Some (Inl e)
           | Inr (t1, solved) \<Rightarrow>
               if solved then Some (Inr t1) else main_loop w fuel iters (t1, g1)))"


text \<open>The \<^verbatim>\<open>reward_mean\<close> field of a printed line.\<close>

definition line_mean :: "nat \<times> real \<times> real \<times> real \<Rightarrow> real" where
  "line_mean l = fst (snd (snd l))"

section \<open>Notions used in the statements\<close>

text \<open>
  Driving the environment along a list of actions the way the generator does, a step
  that raises \<^verbatim>\<open>is_done\<close> being followed by a reset. The result is the number of steps
  taken in the episode under way and the state reached; \<open>None\<close> if the environment raised.
\<close>

fun env_trace ::
  "('obs, 'env, 'net, 'score, 'probs, 'rng) collaborators \<Rightarrow> 'env \<Rightarrow> nat \<Rightarrow> nat list \<Rightarrow>
   (nat \<times> 'env) option" where
  "env_trace w e j [] = Some (j, e)"
| "env_trace w e j (a # acts) =
     (case env_step w e a of
        Inl err \<Rightarrow> None
      | Inr ((ob, rew, is_done), e1) \<Rightarrow>
          if is_done
          then (case env_reset w e1 of
                  Inl err \<Rightarrow> None
                | Inr (ob1, e2) \<Rightarrow> env_trace w e2 0 acts)
          else env_trace w e1 (Suc j) acts)"

text \<open>
  An environment in which every episode ends after exactly \<open>K\<close> steps, each with reward 1,
  whatever actions of the action space \<open>A\<close> are taken. Only the states that a run started
  by the reset of \<open>env0\<close> can reach matter: at such a state, \<open>j\<close> steps into an episode, a
  step returns reward 1 and raises \<^verbatim>\<open>is_done\<close> exactly when it is the \<open>K\<close>-th, and the
  reset that follows returns. Nothing is asked of the states no run reaches, nor of how
  the environment keeps count.
\<close>

definition fixed_length_env ::
  "('obs, 'env, 'net, 'score, 'probs, 'rng) collaborators \<Rightarrow> 'env \<Rightarrow> nat set \<Rightarrow> nat \<Rightarrow> bool" where
  "fixed_length_env w env0 A K \<longleftrightarrow>
     (\<exists>ob e0. env_reset w env0 = Inr (ob, e0) \<and>
        (\<forall>acts j e a. set acts \<subseteq> A \<and> a \<in> A \<and> env_trace w e0 0 acts = Some (j, e) \<longrightarrow>
           (\<exists>ob1 e1. env_step w e a = Inr ((ob1, 1, Suc j = K), e1) \<and>
              (Suc j = K \<longrightarrow> (\<exists>ob2 e2. env_reset w e1 = Inr (ob2, e2))))))"

definition good_episode :: "nat \<Rightarrow> 'obs Episode \<Rightarrow> bool" where
  "good_episode K ep \<longleftrightarrow> reward ep = real K \<and> length (steps ep) = K"

text \<open>What holds of the generator's variables between two passes in such an environment.\<close>

definition fixed_length_inv ::
  "('obs, 'env, 'net, 'score, 'probs, 'rng) collaborators \<Rightarrow> 'env \<Rightarrow> nat set \<Rightarrow> nat \<Rightarrow>
   ('obs, 'env, 'rng) generator \<Rightarrow> bool" where
  "fixed_length_inv w env0 A K g \<longleftrightarrow>
     (\<exists>ob e0 acts. env_reset w env0 = Inr (ob, e0) \<and> set acts \<subseteq> A \<and>
        env_trace w e0 0 acts = Some (length (g_episode_steps g), g_env g)) \<and>
     g_episode_reward g = real (length (g_episode_steps g)) \<and>
     length (g_episode_steps g) < K \<and>
     list_all (good_episode K) (g_batch g)"

text \<open>Passes still needed before the batch in progress is full.\<close>

definition passes_left :: "nat \<Rightarrow> nat \<Rightarrow> ('obs, 'env, 'rng) generator \<Rightarrow> nat" where
  "passes_left K batch_size g =
     (batch_size - length (g_batch g)) * K - length (g_episode_steps g)"

text \<open>The network, the softmax and the sampler return on every input.\<close>

definition policy_returns ::
  "('obs, 'env, 'net, 'score, 'probs, 'rng) collaborators \<Rightarrow> 'net \<Rightarrow> bool" where
  "policy_returns w net \<longleftrightarrow>
     (\<forall>ob. \<exists>scores. forward w net ob = Inr scores) \<and>
     (\<forall>scores. \<exists>act_probs. softmax w scores = Inr act_probs) \<and>
     (\<forall>rs act_probs. \<exists>act rs1. sample w rs act_probs = Inr (act, rs1))"


text \<open>The exception \<open>e\<close> is one that a collaborator of the generator raises on some input.\<close>

definition raised_by ::
  "('obs, 'env, 'net, 'score, 'probs, 'rng) collaborators \<Rightarrow> 'net \<Rightarrow> error \<Rightarrow> bool" where
  "raised_by w net e \<longleftrightarrow>
     (\<exists>ob. forward w net ob = Inl e) \<or> (\<exists>scores. softmax w scores = Inl e) \<or>
     (\<exists>rs act_probs. sample w rs act_probs = Inl e) \<or>
     (\<exists>en a. env_step w en a = Inl e) \<or> (\<exists>en. env_reset w en = Inl e)"

definition has_steps :: "'obs Episode \<Rightarrow> bool" where
  "has_steps ep \<longleftrightarrow> steps ep \<noteq> []"

text \<open>Two runs of the generator that agree on everything but the state of the random
  generator, and two sets of collaborators that agree on everything but the sampler (and
  the optimiser, which \<open>iterate_batches\<close> does not call).\<close>

definition same_run :: "('obs, 'env, 'rng1) generator \<Rightarrow> ('obs, 'env, 'rng2) generator \<Rightarrow> bool" where
  "same_run g h \<longleftrightarrow>
     g_batch g = g_batch h \<and> g_episode_reward g = g_episode_reward h \<and>
     g_episode_steps g = g_episode_steps h \<and> g_obs g = g_obs h \<and> g_env g = g_env h"

definition same_world ::
  "('obs, 'env, 'net, 'score, 'probs, 'rng1) collaborators \<Rightarrow>
   ('obs, 'env, 'net, 'score, 'probs, 'rng2) collaborators \<Rightarrow> bool" where
  "same_world w1 w2 \<longleftrightarrow>
     env_reset w1 = env_reset w2 \<and> env_step w1 = env_step w2 \<and>
     forward w1 = forward w2 \<and> softmax w1 = softmax w2"

section \<open>Concrete collaborators\<close>

text \<open>
  A scripted environment for running the model on concrete inputs: it counts the steps
  taken since the last reset and shows the count as the observation, every step pays
  \<open>r\<close>, and \<^verbatim>\<open>is_done\<close> is raised once the count has reached \<open>K\<close>. The network is a
  counter of the gradient steps taken; the sampler always picks action 0 and advances
  its state. The update raises \<^verbatim>\<open>RuntimeError\<close> on an empty tensor of observations, as
  the forward pass of the notebook's network does, and otherwise takes a step.
\<close>

definition scripted :: "nat \<Rightarrow> real \<Rightarrow> (nat, nat, nat, unit, unit, nat) collaborators" where
  "scripted K r =
     \<lparr>env_reset = (\<lambda>e. Inr (0, 0)),
      env_step = (\<lambda>e a. Inr ((e + 1, r, K \<le> e + 1), e + 1)),
      forward = (\<lambda>n ob. Inr ()),
      softmax = (\<lambda>s. Inr ()),
      sample = (\<lambda>rs p. Inr (0, rs + 1)),
      optimize = (\<lambda>n obs_v acts_v. if obs_v = [] then Inl RuntimeError else Inr (n + 1, 0))\<rparr>"

definition solved_episode :: "nat Episode" where
  "solved_episode = \<lparr>reward = 200, steps = [\<lparr>observation = 0, action = 0\<rparr>]\<rparr>"

text \<open>
  Scores that may be non-finite. \<open>softmax_fl\<close> is a stand-in for the softmax layer on such
  scores, following IEEE arithmetic without rounding: \<open>exp (-inf) = 0\<close>; a NaN or a \<open>+inf\<close>
  among the scores (\<open>inf - inf\<close>), or nothing but \<open>-inf\<close>, makes every entry NaN. It
  returns for every input, as the layer does. \<open>choice_fl\<close> is a stand-in for the sampler:
  it raises \<^verbatim>\<open>ValueError\<close> when the probabilities contain NaN or none is positive, as
  \<^verbatim>\<open>np.random.choice\<close> does, and otherwise returns the first index whose probability
  is not 0, which for the distribution [0, 1] is the only index a draw can return.
  The network of \<open>nonfinite_scorer\<close> scores every observation \<open>[-inf, 0]\<close> when its
  parameter is 0 and \<open>[NaN, 0]\<close> otherwise.
\<close>

datatype fl = Finite real | PosInf | NegInf | NaN

fun exp_fl :: "fl \<Rightarrow> real" where
  "exp_fl (Finite x) = exp x"
| "exp_fl NegInf = 0"
| "exp_fl PosInf = 0"
| "exp_fl NaN = 0"

definition softmax_fl :: "fl list \<Rightarrow> fl list" where
  "softmax_fl xs =
     (if list_ex (\<lambda>x. x = NaN \<or> x = PosInf) xs \<or> list_all (\<lambda>x. x = NegInf) xs
      then map (\<lambda>x. NaN) xs
      else map (\<lambda>x. Finite (exp_fl x / sum_list (map exp_fl xs))) xs)"

definition choice_fl :: "fl list \<Rightarrow> error + nat" where
  "choice_fl p =
     (if list_ex (\<lambda>x. x = NaN) p \<or> list_all (\<lambda>x. x = Finite 0) p then Inl ValueError
      else Inr (length (takeWhile (\<lambda>x. x = Finite 0) p)))"

definition nonfinite_scorer :: "(nat, nat, nat, fl list, fl list, unit) collaborators" where
  "nonfinite_scorer =
     \<lparr>env_reset = (\<lambda>e. Inr (0, 0)),
      env_step = (\<lambda>e a. Inr ((e + 1, 1, False), e + 1)),
      forward = (\<lambda>n ob. Inr (if n = 0 then [NegInf, Finite 0] else [NaN, Finite 0])),
      softmax = (\<lambda>s. Inr (softmax_fl s)),
      sample = (\<lambda>rs p. case choice_fl p of Inl e \<Rightarrow> Inl e | Inr a \<Rightarrow> Inr (a, rs)),
      optimize = (\<lambda>n obs_v acts_v. if obs_v = [] then Inl RuntimeError else Inr (n + 1, 0))\<rparr>"

section \<open>Facts about the elite filter\<close>

lemma elite_loop_eq:
  "elite_loop batch rb (tobs, tact) =
     (tobs @ concat (map (\<lambda>e. if rb \<le> reward e then map observation (steps e) else []) batch),
      tact @ concat (map (\<lambda>e. if rb \<le> reward e then map action (steps e) else []) batch))"
  by (induction batch arbitrary: tobs tact) (auto simp: not_less)

lemma concat_if_filter:
  "concat (map (\<lambda>e. if P e then f e else []) xs) = concat (map f (filter P xs))"
  by (induction xs) auto

lemma elite_loop_filter:
  "elite_loop batch rb ([], []) =
     (map observation (concat (map steps (filter (\<lambda>e. rb \<le> reward e) batch))),
      map action (concat (map steps (filter (\<lambda>e. rb \<le> reward e) batch))))"
  by (simp add: elite_loop_eq concat_if_filter map_concat comp_def)

lemma length_concat_filter_le:
  "length (concat (map f (filter P xs))) \<le> sum_list (map (length \<circ> f) xs)"
  by (induction xs) auto

lemma percentile_defined:
  "a \<noteq> [] \<Longrightarrow> 0 \<le> q \<Longrightarrow> q \<le> 100 \<Longrightarrow> \<exists>r. percentile a q = Inr r"
  by (simp add: percentile_def Let_def)

lemma percentile_Inl:
  "percentile a q = Inl e \<Longrightarrow> a = [] \<or> q < 0 \<or> 100 < q"
  by (auto simp: percentile_def Let_def split: if_splits)

lemma filter_batch_Inl:
  "filter_batch batch pct = Inl e \<Longrightarrow> batch = [] \<or> pct < 0 \<or> 100 < pct"
  by (auto simp: filter_batch_def Let_def split: sum.splits prod.splits dest: percentile_Inl)

lemma filter_batch_Inr:
  "filter_batch batch pct = Inr (tobs, tact, rb, rm) \<longleftrightarrow>
     percentile (map reward batch) pct = Inr rb \<and> rm = mean (map reward batch) \<and>
     elite_loop batch rb ([], []) = (tobs, tact)"
  by (auto simp: filter_batch_def Let_def split: sum.splits prod.splits)

subsection \<open>Order statistics\<close>

lemma sort_nth_le_Max:
  assumes "a \<noteq> []" "i < length a"
  shows "sort a ! i \<le> Max (set a)"
proof -
  have "sort a ! i \<in> set (sort a)" using assms by (simp del: set_sort)
  then show ?thesis by simp
qed

lemma sort_nth_ge_Min:
  assumes "a \<noteq> []" "i < length a"
  shows "Min (set a) \<le> sort a ! i"
proof -
  have "sort a ! i \<in> set (sort a)" using assms by (simp del: set_sort)
  then show ?thesis by simp
qed

lemma sort_last_Max:
  assumes "a \<noteq> ([]::real list)"
  shows "sort a ! (length a - 1) = Max (set a)"
proof (rule sym, rule Max_eqI)
  show "finite (set a)" by simp
  show "sort a ! (length a - 1) \<in> set a"
  proof -
    have "sort a ! (length a - 1) \<in> set (sort a)" using assms by (simp del: set_sort)
    then show ?thesis by simp
  qed
  fix y assume "y \<in> set a"
  then have "y \<in> set (sort a)" by simp
  then obtain j where j: "j < length (sort a)" "sort a ! j = y"
    by (auto simp: in_set_conv_nth simp del: set_sort)
  then have "sort a ! j \<le> sort a ! (length a - 1)"
    by (intro sorted_nth_mono) (use assms in auto)
  with j show "y \<le> sort a ! (length a - 1)" by simp
qed

lemma sort_first_Min:
  assumes "a \<noteq> ([]::real list)"
  shows "sort a ! 0 = Min (set a)"
proof (rule sym, rule Min_eqI)
  show "finite (set a)" by simp
  show "sort a ! 0 \<in> set a"
  proof -
    have "sort a ! 0 \<in> set (sort a)" using assms by (simp del: set_sort)
    then show ?thesis by simp
  qed
  fix y assume "y \<in> set a"
  then have "y \<in> set (sort a)" by simp
  then obtain j where j: "j < length (sort a)" "sort a ! j = y"
    by (auto simp: in_set_conv_nth simp del: set_sort)
  then have "sort a ! 0 \<le> sort a ! j"
    by (intro sorted_nth_mono) (use assms in auto)
  with j show "sort a ! 0 \<le> y" by simp
qed

lemma percentile_100: "a \<noteq> [] \<Longrightarrow> percentile a 100 = Inr (Max (set a))"
  using sort_last_Max [of a] by (simp add: percentile_def Let_def)

lemma percentile_0: "a \<noteq> [] \<Longrightarrow> percentile a 0 = Inr (Min (set a))"
  by (simp add: percentile_def Let_def sort_first_Min)

text \<open>The virtual index splits into an order statistic \<open>k\<close> and a weight \<open>t\<close>.\<close>

lemma percentile_index:
  assumes "a \<noteq> []" "0 \<le> q" "q \<le> 100"
  defines "idx \<equiv> q / 100 * real (length a - 1)"
  shows "nat \<lfloor>idx\<rfloor> < length a" "0 \<le> idx - real (nat \<lfloor>idx\<rfloor>)" "idx - real (nat \<lfloor>idx\<rfloor>) < 1"
proof -
  have idx0: "0 \<le> idx" using assms by (simp add: idx_def)
  have "q / 100 \<le> 1" using assms by simp
  then have "q / 100 * real (length a - 1) \<le> 1 * real (length a - 1)"
    by (intro mult_right_mono) simp_all
  then have idxn: "idx \<le> real (length a - 1)" by (simp add: idx_def)
  have fl: "real (nat \<lfloor>idx\<rfloor>) = real_of_int \<lfloor>idx\<rfloor>" using idx0 by simp
  have "\<lfloor>idx\<rfloor> \<le> int (length a - 1)" using idxn by (simp add: floor_le_iff)
  then have "nat \<lfloor>idx\<rfloor> \<le> length a - 1" by simp
  then show "nat \<lfloor>idx\<rfloor> < length a" using assms(1) by (cases a) simp_all
  have "real_of_int \<lfloor>idx\<rfloor> \<le> idx" "idx < real_of_int \<lfloor>idx\<rfloor> + 1" by linarith+
  then show "0 \<le> idx - real (nat \<lfloor>idx\<rfloor>)" "idx - real (nat \<lfloor>idx\<rfloor>) < 1"
    unfolding fl by linarith+
qed

lemma percentile_bounds:
  assumes "a \<noteq> []" "0 \<le> q" "q \<le> 100" "percentile a q = Inr r"
  shows "Min (set a) \<le> r \<and> r \<le> Max (set a)"
proof -
  define idx where "idx = q / 100 * real (length a - 1)"
  define lo where "lo = nat \<lfloor>idx\<rfloor>"
  define hi where "hi = min (lo + 1) (length a - 1)"
  define t where "t = idx - real lo"
  have r: "r = sort a ! lo + (sort a ! hi - sort a ! lo) * t"
    using assms by (simp add: percentile_def Let_def idx_def lo_def hi_def t_def)
  have "nat \<lfloor>idx\<rfloor> < length a" "0 \<le> idx - real (nat \<lfloor>idx\<rfloor>)"
    "idx - real (nat \<lfloor>idx\<rfloor>) < 1"
    unfolding idx_def by (rule percentile_index [OF assms(1-3)])+
  then have lon: "lo < length a" and t0: "0 \<le> t" and t1: "t \<le> 1"
    unfolding lo_def t_def by linarith+
  have lohi: "lo \<le> hi" using lon by (simp add: hi_def)
  have hin: "hi < length a" using lon by (simp add: hi_def)
  have mono: "sort a ! lo \<le> sort a ! hi"
    by (intro sorted_nth_mono) (use lohi hin in simp_all)
  define d where "d = sort a ! hi - sort a ! lo"
  have d0: "0 \<le> d" using mono by (simp add: d_def)
  have "0 \<le> d * t" using d0 t0 by simp
  moreover have "d * t \<le> d * 1" using d0 t1 by (intro mult_left_mono) simp_all
  ultimately have "sort a ! lo \<le> r" "r \<le> sort a ! hi"
    using r by (simp_all add: d_def)
  moreover have "Min (set a) \<le> sort a ! lo"
    using assms(1) lon by (intro sort_nth_ge_Min)
  moreover have "sort a ! hi \<le> Max (set a)"
    using assms(1) hin by (intro sort_nth_le_Max)
  ultimately show ?thesis by linarith
qed

section \<open>The elite filter: selection\<close>

text \<open>
  C1. For every batch and every percentile, \<open>filter_batch\<close> either raises, which happens
  only on an empty batch or a percentile outside [0, 100], or returns training sequences
  to which each episode contributes all of its steps when its reward is at least
  \<open>reward_bound\<close>, and nothing when its reward is below it. An episode whose reward equals
  \<open>reward_bound\<close> is included.
\<close>

theorem filter_batch_elite_iff:
  "case filter_batch batch pct of
     Inl e \<Rightarrow> batch = [] \<or> pct < 0 \<or> 100 < pct
   | Inr (train_obs, train_act, reward_bound, reward_mean) \<Rightarrow>
       percentile (map reward batch) pct = Inr reward_bound \<and>
       train_obs = concat (map (\<lambda>e. if reward_bound \<le> reward e
                                       then map observation (steps e) else []) batch) \<and>
       train_act = concat (map (\<lambda>e. if reward_bound \<le> reward e
                                       then map action (steps e) else []) batch)"
proof (cases "filter_batch batch pct")
  case (Inl e)
  then show ?thesis using filter_batch_Inl [of batch pct e] by simp
next
  case (Inr r)
  obtain tobs tact rb rm where r: "r = (tobs, tact, rb, rm)" by (cases r) auto
  from Inr r have "percentile (map reward batch) pct = Inr rb"
    and "elite_loop batch rb ([], []) = (tobs, tact)"
    by (simp_all add: filter_batch_Inr)
  then show ?thesis using Inr r by (simp add: elite_loop_eq)
qed

theorem filter_batch_elite_iff_witness:
  "filter_batch
     [\<lparr>reward = 10, steps = [\<lparr>observation = ''a'', action = 0\<rparr>]\<rparr>,
      \<lparr>reward = 30, steps = [\<lparr>observation = ''b'', action = 1\<rparr>, \<lparr>observation = ''c'', action = 0\<rparr>]\<rparr>,
      \<lparr>reward = 20, steps = [\<lparr>observation = ''d'', action = 1\<rparr>]\<rparr>] 50
   = Inr ([''b'', ''c'', ''d''], [1, 0, 1], 20, 20)"
  using filter_batch_elite_iff
    [of "[\<lparr>reward = 10, steps = [\<lparr>observation = ''a'', action = 0\<rparr>]\<rparr>,
      \<lparr>reward = 30, steps = [\<lparr>observation = ''b'', action = 1\<rparr>, \<lparr>observation = ''c'', action = 0\<rparr>]\<rparr>,
      \<lparr>reward = 20, steps = [\<lparr>observation = ''d'', action = 1\<rparr>]\<rparr>]" 50]
  by (simp add: filter_batch_def percentile_def mean_def Let_def)

text \<open>
  C2. The two sequences returned by \<open>filter_batch\<close> have the same length, at most the
  number of steps in the batch; they are the observations and the actions of the steps of
  the episodes with reward at least \<open>reward_bound\<close>, in batch order and then step order;
  and every returned pair is a step of such an episode.
\<close>

theorem filter_batch_sequences:
  "case filter_batch batch pct of
     Inl e \<Rightarrow> batch = [] \<or> pct < 0 \<or> 100 < pct
   | Inr (train_obs, train_act, reward_bound, reward_mean) \<Rightarrow>
       length train_obs = length train_act \<and>
       length train_obs \<le> sum_list (map (length \<circ> steps) batch) \<and>
       train_obs = concat (map (map observation \<circ> steps)
                             (filter (\<lambda>e. reward_bound \<le> reward e) batch)) \<and>
       train_act = concat (map (map action \<circ> steps)
                             (filter (\<lambda>e. reward_bound \<le> reward e) batch)) \<and>
       (\<forall>(ob, ac) \<in> set (zip train_obs train_act).
          \<exists>e \<in> set batch. reward_bound \<le> reward e \<and>
            (\<exists>s \<in> set (steps e). observation s = ob \<and> action s = ac))"
proof (cases "filter_batch batch pct")
  case (Inl e)
  then show ?thesis using filter_batch_Inl [of batch pct e] by simp
next
  case (Inr r)
  obtain tobs tact rb rm where r: "r = (tobs, tact, rb, rm)" by (cases r) auto
  define el where "el = concat (map steps (filter (\<lambda>e. rb \<le> reward e) batch))"
  from Inr r have "elite_loop batch rb ([], []) = (tobs, tact)"
    by (simp add: filter_batch_Inr)
  then have tobs: "tobs = map observation el" and tact: "tact = map action el"
    by (simp_all add: elite_loop_filter el_def)
  have len: "length tobs = length tact" by (simp add: tobs tact)
  have le: "length tobs \<le> sum_list (map (length \<circ> steps) batch)"
    unfolding tobs el_def length_map by (rule length_concat_filter_le)
  have c1: "tobs = concat (map (map observation \<circ> steps) (filter (\<lambda>e. rb \<le> reward e) batch))"
    by (simp add: tobs el_def map_concat)
  have c2: "tact = concat (map (map action \<circ> steps) (filter (\<lambda>e. rb \<le> reward e) batch))"
    by (simp add: tact el_def map_concat)
  have z: "zip tobs tact = map (\<lambda>s. (observation s, action s)) el"
    by (simp add: tobs tact zip_map_map zip_same_conv_map)
  have orig: "\<forall>(ob, ac) \<in> set (zip tobs tact).
          \<exists>e \<in> set batch. rb \<le> reward e \<and>
            (\<exists>s \<in> set (steps e). observation s = ob \<and> action s = ac)"
    unfolding z el_def by auto
  show ?thesis using Inr r len le c1 c2 orig by simp
qed

theorem filter_batch_sequences_witness:
  "filter_batch
     [\<lparr>reward = 1, steps = [\<lparr>observation = ''a'', action = 0\<rparr>]\<rparr>,
      \<lparr>reward = 3, steps = [\<lparr>observation = ''b'', action = 1\<rparr>, \<lparr>observation = ''c'', action = 0\<rparr>]\<rparr>] 70
   = Inr ([''b'', ''c''], [1, 0], 12 / 5, 2)"
  using filter_batch_sequences
    [of "[\<lparr>reward = 1, steps = [\<lparr>observation = ''a'', action = 0\<rparr>]\<rparr>,
      \<lparr>reward = 3, steps = [\<lparr>observation = ''b'', action = 1\<rparr>, \<lparr>observation = ''c'', action = 0\<rparr>]\<rparr>]" 70]
  by (simp add: filter_batch_def percentile_def mean_def Let_def)

section \<open>The elite filter: the reward bound\<close>

text \<open>
  C3. For every non-empty batch, the \<open>reward_bound\<close> that \<open>filter_batch\<close> returns at
  percentile 100 is the largest episode reward of the batch, and at percentile 0 it is the
  smallest.
\<close>

theorem reward_bound_extremes:
  "batch \<noteq> [] \<Longrightarrow>
     (\<exists>train_obs train_act reward_mean.
        filter_batch batch 100 = Inr (train_obs, train_act, Max (reward ` set batch), reward_mean)) \<and>
     (\<exists>train_obs train_act reward_mean.
        filter_batch batch 0 = Inr (train_obs, train_act, Min (reward ` set batch), reward_mean))"
  by (simp add: filter_batch_def Let_def percentile_100 percentile_0 split: prod.splits)

theorem reward_bound_extremes_witness:
  "[\<lparr>reward = 3, steps = []\<rparr>, \<lparr>reward = 1, steps = [\<lparr>observation = (), action = 1\<rparr>]\<rparr>] \<noteq> [] \<and>
   filter_batch [\<lparr>reward = 3, steps = []\<rparr>, \<lparr>reward = 1, steps = [\<lparr>observation = (), action = 1\<rparr>]\<rparr>] 100 = Inr ([], [], 3, 2) \<and>
   filter_batch [\<lparr>reward = 3, steps = []\<rparr>, \<lparr>reward = 1, steps = [\<lparr>observation = (), action = 1\<rparr>]\<rparr>] 0 = Inr ([()], [1], 1, 2)"
  using reward_bound_extremes [of "[\<lparr>reward = 3, steps = []\<rparr>, \<lparr>reward = 1, steps = [\<lparr>observation = (), action = 1\<rparr>]\<rparr>]"]
  by (simp add: filter_batch_def percentile_def mean_def Let_def)

text \<open>
  C4. The \<open>reward_bound\<close> of a non-empty batch at a percentile in [0, 100] is the linear
  interpolation between two neighbouring order statistics of the episode rewards: with
  the virtual index \<open>pct / 100 * (n - 1)\<close> split into its integer part \<open>k\<close> and its fraction
  \<open>t\<close>, it is \<open>(1 - t) * s[k] + t * s[k + 1]\<close> on the sorted rewards \<open>s\<close>. On three episodes
  with rewards 10, 20 and 30 and percentile 70, \<open>filter_batch\<close> returns the bound 24 and the
  mean 20, and the training sequences hold the steps of the episode with reward 30 only.
\<close>

theorem reward_bound_interpolates:
  "(batch \<noteq> [] \<and> 0 \<le> pct \<and> pct \<le> 100 \<longrightarrow>
      (\<exists>k t train_obs train_act reward_mean.
         k < length batch \<and> 0 \<le> t \<and> t < 1 \<and>
         real k + t = pct / 100 * real (length batch - 1) \<and>
         filter_batch batch pct =
           Inr (train_obs, train_act,
                (1 - t) * sort (map reward batch) ! k
                  + t * sort (map reward batch) ! min (k + 1) (length batch - 1),
                reward_mean))) \<and>
   filter_batch [\<lparr>reward = 10, steps = s1\<rparr>, \<lparr>reward = 20, steps = s2\<rparr>,
                 \<lparr>reward = 30, steps = s3\<rparr>] 70
     = Inr (map observation s3, map action s3, 24, 20)"
proof (intro conjI impI)
  assume a: "batch \<noteq> [] \<and> 0 \<le> pct \<and> pct \<le> 100"
  define rs where "rs = map reward batch"
  define idx where "idx = pct / 100 * real (length rs - 1)"
  define k where "k = nat \<lfloor>idx\<rfloor>"
  define t where "t = idx - real k"
  have rs: "rs \<noteq> []" using a by (simp add: rs_def)
  have "nat \<lfloor>idx\<rfloor> < length rs" "0 \<le> idx - real (nat \<lfloor>idx\<rfloor>)"
    "idx - real (nat \<lfloor>idx\<rfloor>) < 1"
    unfolding idx_def using rs a by (intro percentile_index; simp)+
  then have k: "k < length batch" and t0: "0 \<le> t" and t1: "t < 1"
    unfolding k_def t_def rs_def by simp_all
  have kt: "real k + t = pct / 100 * real (length batch - 1)"
    by (simp add: t_def idx_def rs_def)
  have p: "percentile rs pct =
      Inr (sort rs ! k + (sort rs ! min (k + 1) (length rs - 1) - sort rs ! k) * t)"
    using rs a by (simp add: percentile_def Let_def k_def t_def idx_def)
  have alg: "sort rs ! k + (sort rs ! min (k + 1) (length rs - 1) - sort rs ! k) * t
      = (1 - t) * sort rs ! k + t * sort rs ! min (k + 1) (length rs - 1)"
    by (simp add: algebra_simps)
  obtain tobs tact where el: "elite_loop batch
      ((1 - t) * sort rs ! k + t * sort rs ! min (k + 1) (length rs - 1)) ([], []) = (tobs, tact)"
    by (cases "elite_loop batch
      ((1 - t) * sort rs ! k + t * sort rs ! min (k + 1) (length rs - 1)) ([], [])") auto
  have "filter_batch batch pct = Inr (tobs, tact,
      (1 - t) * sort (map reward batch) ! k
         + t * sort (map reward batch) ! min (k + 1) (length batch - 1), mean rs)"
    using p el unfolding alg by (simp add: filter_batch_Inr rs_def)
  with k t0 t1 kt show "\<exists>k t train_obs train_act reward_mean.
         k < length batch \<and> 0 \<le> t \<and> t < 1 \<and>
         real k + t = pct / 100 * real (length batch - 1) \<and>
         filter_batch batch pct =
           Inr (train_obs, train_act,
                (1 - t) * sort (map reward batch) ! k
                  + t * sort (map reward batch) ! min (k + 1) (length batch - 1),
                reward_mean)" by blast
next
  show "filter_batch [\<lparr>reward = 10, steps = s1\<rparr>, \<lparr>reward = 20, steps = s2\<rparr>,
                 \<lparr>reward = 30, steps = s3\<rparr>] 70
     = Inr (map observation s3, map action s3, 24, 20)"
    by (simp add: filter_batch_def percentile_def mean_def Let_def)
qed

theorem reward_bound_interpolates_witness:
  "[\<lparr>reward = 1, steps = []\<rparr>, \<lparr>reward = 3, steps = [\<lparr>observation = True, action = 1\<rparr>]\<rparr>] \<noteq> [] \<and>
   (0::real) \<le> 50 \<and> (50::real) \<le> 100 \<and>
   (\<exists>k t train_obs train_act reward_mean.
       k < length [\<lparr>reward = 1, steps = []\<rparr>,
                   \<lparr>reward = 3, steps = [\<lparr>observation = True, action = 1\<rparr>]\<rparr>] \<and>
       0 \<le> t \<and> t < 1 \<and>
       real k + t = 50 / 100 * real (length [\<lparr>reward = 1, steps = []\<rparr>,
                   \<lparr>reward = 3, steps = [\<lparr>observation = True, action = 1\<rparr>]\<rparr>] - 1) \<and>
       filter_batch [\<lparr>reward = 1, steps = []\<rparr>,
                     \<lparr>reward = 3, steps = [\<lparr>observation = True, action = 1\<rparr>]\<rparr>] 50
         = Inr (train_obs, train_act,
                (1 - t) * sort [1, 3] ! k + t * sort [1, 3] ! min (k + 1) 1, reward_mean)) \<and>
   filter_batch [\<lparr>reward = 10, steps = []\<rparr>, \<lparr>reward = 20, steps = []\<rparr>,
                 \<lparr>reward = 30, steps = [\<lparr>observation = True, action = 1\<rparr>]\<rparr>] 70
     = Inr ([True], [1], 24, 20)"
  using reward_bound_interpolates
    [of "[\<lparr>reward = 1, steps = []\<rparr>, \<lparr>reward = 3, steps = [\<lparr>observation = True, action = 1\<rparr>]\<rparr>]" 50
        "[]" "[]" "[\<lparr>observation = True, action = 1\<rparr>]"]
  by simp

section \<open>The generator\<close>

lemma loop_body_eq:
  assumes "forward w net (g_obs g) = Inr scores"
    and "softmax w scores = Inr act_probs"
    and "sample w (g_rng g) act_probs = Inr (act, rng1)"
    and "env_step w (g_env g) act = Inr ((next_obs, rew, is_done), env1)"
    and "is_done \<longrightarrow> env_reset w env1 = Inr (next_obs1, env2)"
  shows "loop_body w net batch_size g =
     Inr (if is_done then
        (if Suc (length (g_batch g)) = batch_size
         then Some (g_batch g @ [\<lparr>reward = g_episode_reward g + rew,
                 steps = g_episode_steps g @ [\<lparr>observation = g_obs g, action = act\<rparr>]\<rparr>])
         else None,
         \<lparr>g_batch = (if Suc (length (g_batch g)) = batch_size then []
                     else g_batch g @ [\<lparr>reward = g_episode_reward g + rew,
                 steps = g_episode_steps g @ [\<lparr>observation = g_obs g, action = act\<rparr>]\<rparr>]),
          g_episode_reward = 0, g_episode_steps = [],
          g_obs = next_obs1, g_env = env2, g_rng = rng1\<rparr>)
      else (None,
            \<lparr>g_batch = g_batch g, g_episode_reward = g_episode_reward g + rew,
             g_episode_steps = g_episode_steps g @ [\<lparr>observation = g_obs g, action = act\<rparr>],
             g_obs = next_obs, g_env = env1, g_rng = rng1\<rparr>))"
  using assms by (simp add: loop_body_def Let_def)

lemma loop_body_Inr:
  assumes "loop_body w net batch_size g = Inr (out, g1)"
  shows "\<exists>scores act_probs act rng1 next_obs rew is_done env1 next_obs1 env2.
    forward w net (g_obs g) = Inr scores \<and>
    softmax w scores = Inr act_probs \<and>
    sample w (g_rng g) act_probs = Inr (act, rng1) \<and>
    env_step w (g_env g) act = Inr ((next_obs, rew, is_done), env1) \<and>
    (is_done \<longrightarrow> env_reset w env1 = Inr (next_obs1, env2))"
proof -
  from assms obtain scores where f: "forward w net (g_obs g) = Inr scores"
    by (auto simp: loop_body_def split: sum.splits)
  with assms obtain act_probs where s: "softmax w scores = Inr act_probs"
    by (auto simp: loop_body_def split: sum.splits)
  with assms f obtain act rng1 where c: "sample w (g_rng g) act_probs = Inr (act, rng1)"
    by (auto simp: loop_body_def split: sum.splits)
  with assms f s obtain next_obs rew is_done env1 where
    e: "env_step w (g_env g) act = Inr ((next_obs, rew, is_done), env1)"
    by (auto simp: loop_body_def split: sum.splits)
  show ?thesis
  proof (cases is_done)
    case True
    with assms f s c e obtain next_obs1 env2 where "env_reset w env1 = Inr (next_obs1, env2)"
      by (auto simp: loop_body_def Let_def split: sum.splits)
    with f s c e show ?thesis by blast
  next
    case False
    with f s c e show ?thesis by blast
  qed
qed

lemma loop_body_Inl:
  "loop_body w net batch_size g = Inl e \<Longrightarrow> raised_by w net e"
  unfolding loop_body_def raised_by_def Let_def
  by (auto split: sum.splits prod.splits if_splits)

lemma loop_body_Inl_iff:
  "loop_body w net batch_size g = Inl e \<longleftrightarrow>
     forward w net (g_obs g) = Inl e \<or>
     (\<exists>scores. forward w net (g_obs g) = Inr scores \<and>
        (softmax w scores = Inl e \<or>
         (\<exists>act_probs. softmax w scores = Inr act_probs \<and>
            (sample w (g_rng g) act_probs = Inl e \<or>
             (\<exists>act rng1. sample w (g_rng g) act_probs = Inr (act, rng1) \<and>
                (env_step w (g_env g) act = Inl e \<or>
                 (\<exists>next_obs rew env1.
                    env_step w (g_env g) act = Inr ((next_obs, rew, True), env1) \<and>
                    env_reset w env1 = Inl e)))))))"
  unfolding loop_body_def Let_def
  by (auto split: sum.splits prod.splits if_splits)

lemma loop_body_emits_batch_size:
  "loop_body w net batch_size g = Inr (Some b, g1) \<Longrightarrow> length b = batch_size \<and> g_batch g1 = []"
  by (auto simp: loop_body_def Let_def split: sum.splits prod.splits if_splits)

lemma start_batch_empty: "start w env0 rng0 = Inr g \<Longrightarrow> g_batch g = [] \<and> g_episode_steps g = []"
  by (auto simp: start_def split: sum.splits prod.splits)

lemma next_batch_Inl:
  "next_batch w net batch_size fuel g = Some (Inl e) \<Longrightarrow> raised_by w net e"
proof (induction fuel arbitrary: g)
  case 0
  then show ?case by simp
next
  case (Suc fuel)
  show ?case
  proof (cases "loop_body w net batch_size g")
    case (Inl e')
    with Suc.prems have "e' = e" by simp
    with Inl show ?thesis by (simp add: loop_body_Inl)
  next
    case (Inr r)
    obtain out g1 where r: "r = (out, g1)" by (cases r) auto
    with Inr Suc.prems Suc.IH [of g1] show ?thesis by (cases out) simp_all
  qed
qed

lemma take_batches_Inl:
  "take_batches w net batch_size fuel n g = Some (Inl e) \<Longrightarrow> raised_by w net e"
proof (induction n arbitrary: g)
  case 0
  then show ?case by simp
next
  case (Suc n)
  show ?case
  proof (cases "next_batch w net batch_size fuel g")
    case None
    with Suc.prems show ?thesis by simp
  next
    case (Some r)
    show ?thesis
    proof (cases r)
      case (Inl e')
      with Some Suc.prems have "e' = e" by simp
      with Some Inl show ?thesis by (simp add: next_batch_Inl)
    next
      case (Inr p)
      obtain b g1 where p: "p = (b, g1)" by (cases p) auto
      with Some Inr Suc.prems have "take_batches w net batch_size fuel n g1 = Some (Inl e)"
        by (auto split: option.splits sum.splits)
      then show ?thesis by (rule Suc.IH)
    qed
  qed
qed

lemma iterate_batches_Inl:
  assumes "iterate_batches w net batch_size env0 rng0 fuel n = Some (Inl e)"
  shows "raised_by w net e"
proof (cases "start w env0 rng0")
  case (Inl e')
  with assms have "e' = e" by (simp add: iterate_batches_def split: if_splits)
  with Inl have "env_reset w env0 = Inl e" by (auto simp: start_def split: sum.splits)
  then show ?thesis unfolding raised_by_def by blast
next
  case (Inr g)
  with assms have "take_batches w net batch_size fuel n g = Some (Inl e)"
    by (simp add: iterate_batches_def split: if_splits)
  then show ?thesis by (rule take_batches_Inl)
qed

subsection \<open>Episodes of fixed length\<close>

lemma env_trace_snoc:
  "env_trace w e j (acts @ [a]) =
     (case env_trace w e j acts of None \<Rightarrow> None | Some (j1, e1) \<Rightarrow> env_trace w e1 j1 [a])"
  by (induction acts arbitrary: e j) (auto split: sum.splits prod.splits)

lemma fixed_length_env_step:
  assumes "fixed_length_env w env0 A K" "env_reset w env0 = Inr (ob, e0)"
    and "set acts \<subseteq> A" "a \<in> A" "env_trace w e0 0 acts = Some (j, e)"
  shows "\<exists>ob1 e1. env_step w e a = Inr ((ob1, 1, Suc j = K), e1) \<and>
           (Suc j = K \<longrightarrow> (\<exists>ob2 e2. env_reset w e1 = Inr (ob2, e2)))"
  using assms unfolding fixed_length_env_def by auto

lemma start_fixed_length_inv:
  "fixed_length_env w env0 A K \<Longrightarrow> 0 < K \<Longrightarrow> start w env0 rng0 = Inr g \<Longrightarrow>
     fixed_length_inv w env0 A K g"
  unfolding fixed_length_inv_def fixed_length_env_def start_def
  by (auto split: sum.splits prod.splits intro!: exI [of _ "[]"])

lemma start_returns:
  "fixed_length_env w env0 A K \<Longrightarrow> \<exists>g. start w env0 rng0 = Inr g"
  unfolding fixed_length_env_def start_def by auto

lemma fixed_length_pass:
  assumes env: "fixed_length_env w env0 A K"
    and inv: "fixed_length_inv w env0 A K g"
    and act: "act \<in> A"
  shows "\<exists>ob1 e1. env_step w (g_env g) act =
            Inr ((ob1, 1, Suc (length (g_episode_steps g)) = K), e1) \<and>
          (if Suc (length (g_episode_steps g)) = K
           then \<exists>ob2 e2. env_reset w e1 = Inr (ob2, e2) \<and>
                  (\<exists>ob e0 acts. env_reset w env0 = Inr (ob, e0) \<and> set acts \<subseteq> A \<and>
                     env_trace w e0 0 acts = Some (0, e2))
           else \<exists>ob e0 acts. env_reset w env0 = Inr (ob, e0) \<and> set acts \<subseteq> A \<and>
                     env_trace w e0 0 acts = Some (Suc (length (g_episode_steps g)), e1))"
proof -
  from inv obtain ob e0 acts where r: "env_reset w env0 = Inr (ob, e0)" and a: "set acts \<subseteq> A"
    and tr: "env_trace w e0 0 acts = Some (length (g_episode_steps g), g_env g)"
    unfolding fixed_length_inv_def by blast
  from fixed_length_env_step [OF env r a act tr] obtain ob1 e1 where
    st: "env_step w (g_env g) act = Inr ((ob1, 1, Suc (length (g_episode_steps g)) = K), e1)"
    and rs: "Suc (length (g_episode_steps g)) = K \<longrightarrow> (\<exists>ob2 e2. env_reset w e1 = Inr (ob2, e2))"
    by blast
  have a1: "set (acts @ [act]) \<subseteq> A" using a act by simp
  show ?thesis
  proof (cases "Suc (length (g_episode_steps g)) = K")
    case True
    with rs obtain ob2 e2 where r2: "env_reset w e1 = Inr (ob2, e2)" by blast
    have "env_trace w e0 0 (acts @ [act]) = Some (0, e2)"
      using tr st r2 True by (simp add: env_trace_snoc)
    with r a1 have "\<exists>ob e0 acts. env_reset w env0 = Inr (ob, e0) \<and> set acts \<subseteq> A \<and>
                     env_trace w e0 0 acts = Some (0, e2)" by blast
    with st r2 True show ?thesis by simp
  next
    case False
    have "env_trace w e0 0 (acts @ [act]) = Some (Suc (length (g_episode_steps g)), e1)"
      using tr st False by (simp add: env_trace_snoc)
    with r a1 have "\<exists>ob e0 acts. env_reset w env0 = Inr (ob, e0) \<and> set acts \<subseteq> A \<and>
                     env_trace w e0 0 acts = Some (Suc (length (g_episode_steps g)), e1)" by blast
    with st False show ?thesis by simp
  qed
qed

lemma loop_body_fixed_length:
  assumes env: "fixed_length_env w env0 A K"
    and smp: "\<forall>rs p act rs1. sample w rs p = Inr (act, rs1) \<longrightarrow> act \<in> A"
    and inv: "fixed_length_inv w env0 A K g"
    and body: "loop_body w net batch_size g = Inr (out, g1)"
  shows "fixed_length_inv w env0 A K g1 \<and> (\<forall>b. out = Some b \<longrightarrow> list_all (good_episode K) b)"
proof -
  from loop_body_Inr [OF body]
  obtain scores act_probs act rng1 next_obs rew is_done env1 next_obs1 env2 where
    f: "forward w net (g_obs g) = Inr scores"
    and s: "softmax w scores = Inr act_probs"
    and c: "sample w (g_rng g) act_probs = Inr (act, rng1)"
    and e: "env_step w (g_env g) act = Inr ((next_obs, rew, is_done), env1)"
    and r: "is_done \<longrightarrow> env_reset w env1 = Inr (next_obs1, env2)"
    by blast
  from smp c have act: "act \<in> A" by blast
  from inv have len: "length (g_episode_steps g) < K"
    and rw: "g_episode_reward g = real (length (g_episode_steps g))"
    and gb: "list_all (good_episode K) (g_batch g)"
    unfolding fixed_length_inv_def by simp_all
  from fixed_length_pass [OF env inv act] e
  have rew: "rew = 1" and dn: "is_done \<longleftrightarrow> Suc (length (g_episode_steps g)) = K"
    and tr: "if is_done
           then \<exists>ob2 e2. env_reset w env1 = Inr (ob2, e2) \<and>
                  (\<exists>ob e0 acts. env_reset w env0 = Inr (ob, e0) \<and> set acts \<subseteq> A \<and>
                     env_trace w e0 0 acts = Some (0, e2))
           else \<exists>ob e0 acts. env_reset w env0 = Inr (ob, e0) \<and> set acts \<subseteq> A \<and>
                     env_trace w e0 0 acts = Some (Suc (length (g_episode_steps g)), env1)"
    by auto
  note eq = body [unfolded loop_body_eq [OF f s c e r]]
  show ?thesis
  proof (cases is_done)
    case True
    with tr r have t0: "\<exists>ob e0 acts. env_reset w env0 = Inr (ob, e0) \<and> set acts \<subseteq> A \<and>
                     env_trace w e0 0 acts = Some (0, env2)" by auto
    have ge: "good_episode K \<lparr>reward = g_episode_reward g + rew,
                 steps = g_episode_steps g @ [\<lparr>observation = g_obs g, action = act\<rparr>]\<rparr>"
      using True dn rew rw by (auto simp: good_episode_def)
    have K: "0 < K" using len by simp
    from eq True have g1: "g_env g1 = env2" "g_episode_steps g1 = []" "g_episode_reward g1 = 0"
      by auto
    from eq True gb ge have b1: "list_all (good_episode K) (g_batch g1)"
      by (auto split: if_splits)
    from eq True gb ge have o: "\<forall>b. out = Some b \<longrightarrow> list_all (good_episode K) b"
      by (auto split: if_splits)
    show ?thesis using t0 g1 b1 o K unfolding fixed_length_inv_def by simp
  next
    case False
    from eq False have g1: "g_env g1 = env1"
      "g_episode_steps g1 = g_episode_steps g @ [\<lparr>observation = g_obs g, action = act\<rparr>]"
      "g_episode_reward g1 = g_episode_reward g + rew" "g_batch g1 = g_batch g" "out = None"
      by auto
    from False dn len have "Suc (length (g_episode_steps g)) < K" by simp
    with tr False g1 rew rw gb show ?thesis unfolding fixed_length_inv_def by simp
  qed
qed

lemma next_batch_fixed_length:
  assumes env: "fixed_length_env w env0 A K"
    and smp: "\<forall>rs p act rs1. sample w rs p = Inr (act, rs1) \<longrightarrow> act \<in> A"
  shows "fixed_length_inv w env0 A K g \<Longrightarrow>
     next_batch w net batch_size fuel g = Some (Inr (b, g1)) \<Longrightarrow>
     fixed_length_inv w env0 A K g1 \<and> g_batch g1 = [] \<and> length b = batch_size \<and>
     list_all (good_episode K) b"
proof (induction fuel arbitrary: g)
  case 0
  then show ?case by simp
next
  case (Suc fuel)
  from Suc.prems(2) obtain out g2 where body: "loop_body w net batch_size g = Inr (out, g2)"
    by (auto split: sum.splits)
  from loop_body_fixed_length [OF env smp Suc.prems(1) body]
  have inv2: "fixed_length_inv w env0 A K g2"
    and good: "\<forall>b. out = Some b \<longrightarrow> list_all (good_episode K) b"
    by simp_all
  show ?case
  proof (cases out)
    case None
    with Suc.prems(2) body have "next_batch w net batch_size fuel g2 = Some (Inr (b, g1))" by simp
    from Suc.IH [OF inv2 this] show ?thesis .
  next
    case (Some b')
    with Suc.prems(2) body have eq: "b' = b" "g2 = g1" by simp_all
    with Some body loop_body_emits_batch_size [of w net batch_size g b g1] inv2 good
    show ?thesis by simp
  qed
qed

lemma loop_body_progress:
  assumes env: "fixed_length_env w env0 A K"
    and smp: "\<forall>rs p act rs1. sample w rs p = Inr (act, rs1) \<longrightarrow> act \<in> A"
    and inv: "fixed_length_inv w env0 A K g"
    and room: "length (g_batch g) < batch_size"
    and body: "loop_body w net batch_size g = Inr (None, g1)"
  shows "length (g_batch g1) < batch_size \<and>
         Suc (passes_left K batch_size g1) = passes_left K batch_size g"
proof -
  from loop_body_Inr [OF body]
  obtain scores act_probs act rng1 next_obs rew is_done env1 next_obs1 env2 where
    f: "forward w net (g_obs g) = Inr scores"
    and s: "softmax w scores = Inr act_probs"
    and c: "sample w (g_rng g) act_probs = Inr (act, rng1)"
    and e: "env_step w (g_env g) act = Inr ((next_obs, rew, is_done), env1)"
    and r: "is_done \<longrightarrow> env_reset w env1 = Inr (next_obs1, env2)"
    by blast
  from smp c have act: "act \<in> A" by blast
  from fixed_length_pass [OF env inv act] e
  have dn: "is_done \<longleftrightarrow> Suc (length (g_episode_steps g)) = K" by auto
  note eq = body [unfolded loop_body_eq [OF f s c e r]]
  define m where "m = batch_size - length (g_batch g)"
  define l where "l = length (g_episode_steps g)"
  have m: "0 < m" using room by (simp add: m_def)
  have l: "l < K" using inv by (simp add: fixed_length_inv_def l_def)
  have "1 * K \<le> m * K" using m by (intro mult_le_mono1) simp
  then have big: "K \<le> m * K" by simp
  show ?thesis
  proof (cases is_done)
    case False
    then have g1: "g_batch g1 = g_batch g" "length (g_episode_steps g1) = Suc l"
      using eq by (auto simp: l_def)
    have "Suc l < K" using False dn l by (simp add: l_def)
    with big have "Suc (m * K - Suc l) = m * K - l" by linarith
    moreover have "passes_left K batch_size g = m * K - l"
      by (simp add: passes_left_def m_def l_def)
    moreover have "passes_left K batch_size g1 = m * K - Suc l"
      using g1 by (simp add: passes_left_def m_def)
    ultimately show ?thesis using g1 room by simp
  next
    case True
    then have g1: "length (g_batch g1) = Suc (length (g_batch g))" "g_episode_steps g1 = []"
      and ne: "Suc (length (g_batch g)) \<noteq> batch_size"
      using eq by (auto split: if_splits)
    have K: "K = Suc l" using True dn by (simp add: l_def)
    have m2: "batch_size - Suc (length (g_batch g)) = m - 1" by (simp add: m_def)
    have "Suc ((m - 1) * K) = m * K - l"
    proof -
      have "m * K = (m - 1) * K + K" using m by (cases m) simp_all
      then show ?thesis using K by simp
    qed
    moreover have "passes_left K batch_size g = m * K - l"
      by (simp add: passes_left_def m_def l_def)
    moreover have "passes_left K batch_size g1 = (m - 1) * K"
      using g1 by (simp add: passes_left_def m2)
    moreover have "length (g_batch g1) < batch_size" using g1 ne room by simp
    ultimately show ?thesis by simp
  qed
qed

lemma next_batch_returns:
  assumes env: "fixed_length_env w env0 A K"
    and smp: "\<forall>rs p act rs1. sample w rs p = Inr (act, rs1) \<longrightarrow> act \<in> A"
  shows "fixed_length_inv w env0 A K g \<Longrightarrow> length (g_batch g) < batch_size \<Longrightarrow>
     passes_left K batch_size g \<le> fuel \<Longrightarrow> \<exists>r. next_batch w net batch_size fuel g = Some r"
proof (induction fuel arbitrary: g)
  case 0
  then have "length (g_episode_steps g) < K" by (simp add: fixed_length_inv_def)
  moreover have "1 * K \<le> (batch_size - length (g_batch g)) * K"
    using 0(2) by (intro mult_le_mono1) simp
  ultimately have "0 < passes_left K batch_size g" unfolding passes_left_def by linarith
  with 0(3) show ?case by simp
next
  case (Suc fuel)
  show ?case
  proof (cases "loop_body w net batch_size g")
    case (Inl e)
    then show ?thesis by simp
  next
    case (Inr r)
    obtain out g2 where r: "r = (out, g2)" by (cases r) auto
    show ?thesis
    proof (cases out)
      case None
      note body = Inr [unfolded r None]
      from loop_body_fixed_length [OF env smp Suc.prems(1) body]
      have inv2: "fixed_length_inv w env0 A K g2" by simp
      from loop_body_progress [OF env smp Suc.prems(1,2) body] Suc.prems(3)
      have "length (g_batch g2) < batch_size" "passes_left K batch_size g2 \<le> fuel" by simp_all
      from Suc.IH [OF inv2 this] show ?thesis using body by simp
    next
      case (Some b)
      then show ?thesis using Inr r by simp
    qed
  qed
qed

lemma loop_body_no_error:
  assumes env: "fixed_length_env w env0 A K"
    and smp: "\<forall>rs p act rs1. sample w rs p = Inr (act, rs1) \<longrightarrow> act \<in> A"
    and pol: "policy_returns w net"
    and inv: "fixed_length_inv w env0 A K g"
  shows "\<exists>r. loop_body w net batch_size g = Inr r"
proof -
  from pol obtain scores where f: "forward w net (g_obs g) = Inr scores"
    unfolding policy_returns_def by blast
  from pol obtain act_probs where s: "softmax w scores = Inr act_probs"
    unfolding policy_returns_def by blast
  from pol obtain act rng1 where c: "sample w (g_rng g) act_probs = Inr (act, rng1)"
    unfolding policy_returns_def by blast
  from smp c have act: "act \<in> A" by blast
  from fixed_length_pass [OF env inv act] obtain ob1 e1 where
    e: "env_step w (g_env g) act = Inr ((ob1, 1, Suc (length (g_episode_steps g)) = K), e1)"
    and r: "Suc (length (g_episode_steps g)) = K \<longrightarrow> (\<exists>ob2 e2. env_reset w e1 = Inr (ob2, e2))"
    by (auto split: if_splits)
  show ?thesis
  proof (cases "Suc (length (g_episode_steps g)) = K")
    case True
    with r obtain ob2 e2 where "env_reset w e1 = Inr (ob2, e2)" by blast
    then have "Suc (length (g_episode_steps g)) = K \<longrightarrow> env_reset w e1 = Inr (ob2, e2)" by simp
    from loop_body_eq [OF f s c e this] show ?thesis by blast
  next
    case False
    then have "Suc (length (g_episode_steps g)) = K \<longrightarrow> env_reset w e1 = Inr (ob1, e1)" by simp
    from loop_body_eq [OF f s c e this] show ?thesis by blast
  qed
qed

lemma next_batch_no_error:
  assumes env: "fixed_length_env w env0 A K"
    and smp: "\<forall>rs p act rs1. sample w rs p = Inr (act, rs1) \<longrightarrow> act \<in> A"
    and pol: "policy_returns w net"
  shows "fixed_length_inv w env0 A K g \<Longrightarrow> next_batch w net batch_size fuel g \<noteq> Some (Inl e)"
proof (induction fuel arbitrary: g)
  case 0
  then show ?case by simp
next
  case (Suc fuel)
  from loop_body_no_error [OF env smp pol Suc.prems] obtain out g2 where
    body: "loop_body w net batch_size g = Inr (out, g2)" by (metis surj_pair)
  from loop_body_fixed_length [OF env smp Suc.prems body]
  have inv2: "fixed_length_inv w env0 A K g2" by simp
  show ?case using body Suc.IH [OF inv2] by (cases out) simp_all
qed

lemma take_batches_fixed_length:
  assumes env: "fixed_length_env w env0 A K"
    and smp: "\<forall>rs p act rs1. sample w rs p = Inr (act, rs1) \<longrightarrow> act \<in> A"
  shows "fixed_length_inv w env0 A K g \<Longrightarrow>
     take_batches w net batch_size fuel n g = Some (Inr bs) \<Longrightarrow>
     b \<in> set bs \<Longrightarrow> length b = batch_size \<and> list_all (good_episode K) b"
proof (induction n arbitrary: g bs)
  case 0
  then show ?case by simp
next
  case (Suc n)
  from Suc.prems(2) obtain b1 g1 bs1 where
    nb: "next_batch w net batch_size fuel g = Some (Inr (b1, g1))"
    and tb: "take_batches w net batch_size fuel n g1 = Some (Inr bs1)"
    and bs: "bs = b1 # bs1"
    by (auto split: option.splits sum.splits)
  from next_batch_fixed_length [OF env smp Suc.prems(1) nb]
  have inv1: "fixed_length_inv w env0 A K g1"
    and b1: "length b1 = batch_size \<and> list_all (good_episode K) b1" by simp_all
  from Suc.prems(3) bs have "b = b1 \<or> b \<in> set bs1" by auto
  then show ?case using b1 Suc.IH [OF inv1 tb] by blast
qed

lemma passes_left_le: "passes_left K batch_size g \<le> batch_size * K"
proof -
  have "(batch_size - length (g_batch g)) * K \<le> batch_size * K"
    by (intro mult_le_mono1) simp
  then show ?thesis unfolding passes_left_def by linarith
qed

lemma take_batches_returns:
  assumes env: "fixed_length_env w env0 A K"
    and smp: "\<forall>rs p act rs1. sample w rs p = Inr (act, rs1) \<longrightarrow> act \<in> A"
    and bs: "0 < batch_size" and fuel: "batch_size * K \<le> fuel"
  shows "fixed_length_inv w env0 A K g \<Longrightarrow> g_batch g = [] \<Longrightarrow>
     \<exists>r. take_batches w net batch_size fuel n g = Some r \<and>
       (policy_returns w net \<longrightarrow> (\<exists>bs. r = Inr bs \<and> length bs = n))"
proof (induction n arbitrary: g)
  case 0
  then show ?case by simp
next
  case (Suc n)
  have "length (g_batch g) < batch_size" using Suc.prems(2) bs by simp
  moreover have "passes_left K batch_size g \<le> fuel"
    using passes_left_le [of K batch_size g] fuel by linarith
  ultimately obtain r1 where nb: "next_batch w net batch_size fuel g = Some r1"
    using next_batch_returns [OF env smp Suc.prems(1), of batch_size fuel net] by auto
  show ?case
  proof (cases r1)
    case (Inl e)
    with nb next_batch_no_error [OF env smp _ Suc.prems(1), of net batch_size fuel e]
    show ?thesis by auto
  next
    case (Inr p)
    obtain b1 g1 where p: "p = (b1, g1)" by (cases p) auto
    from next_batch_fixed_length [OF env smp Suc.prems(1) nb [unfolded Inr p]]
    have "fixed_length_inv w env0 A K g1" "g_batch g1 = []" by simp_all
    from Suc.IH [OF this] obtain r where
      tb: "take_batches w net batch_size fuel n g1 = Some r"
      and ok: "policy_returns w net \<longrightarrow> (\<exists>bs. r = Inr bs \<and> length bs = n)" by auto
    show ?thesis using nb Inr p tb ok by (cases r) auto
  qed
qed

lemma scripted_trace:
  "j < K \<Longrightarrow> env_trace (scripted K r) j j acts = Some (j1, e1) \<Longrightarrow> e1 = j1 \<and> j1 < K"
proof (induction acts arbitrary: j)
  case Nil
  then show ?case by simp
next
  case (Cons a acts)
  show ?case
  proof (cases "K \<le> j + 1")
    case True
    with Cons.prems have "env_trace (scripted K r) 0 0 acts = Some (j1, e1)"
      by (simp add: scripted_def)
    moreover have "0 < K" using Cons.prems(1) by simp
    ultimately show ?thesis by (rule Cons.IH [rotated])
  next
    case False
    with Cons.prems have "env_trace (scripted K r) (Suc j) (Suc j) acts = Some (j1, e1)"
      by (simp add: scripted_def)
    moreover have "Suc j < K" using False by simp
    ultimately show ?thesis by (rule Cons.IH [rotated])
  qed
qed

lemma scripted_fixed_length: "0 < K \<Longrightarrow> fixed_length_env (scripted K 1) env0 A K"
proof -
  assume K: "0 < K"
  have r: "env_reset (scripted K 1) env0 = Inr (0, 0)" by (simp add: scripted_def)
  have "\<exists>ob1 e1. env_step (scripted K 1) e a = Inr ((ob1, 1, Suc j = K), e1) \<and>
           (Suc j = K \<longrightarrow> (\<exists>ob2 e2. env_reset (scripted K 1) e1 = Inr (ob2, e2)))"
    if "env_trace (scripted K 1) 0 0 acts = Some (j, e)" for acts j e a
  proof -
    from scripted_trace [OF K that] have "e = j" "j < K" by simp_all
    then show ?thesis by (auto simp: scripted_def)
  qed
  with r show ?thesis unfolding fixed_length_env_def by blast
qed

lemma scripted_run:
  "iterate_batches (scripted 2 1) 0 2 0 0 4 1 =
     Some (Inr [[\<lparr>reward = 2, steps = [\<lparr>observation = 0, action = 0\<rparr>, \<lparr>observation = 1, action = 0\<rparr>]\<rparr>,
            \<lparr>reward = 2, steps = [\<lparr>observation = 0, action = 0\<rparr>, \<lparr>observation = 1, action = 0\<rparr>]\<rparr>]])"
  by (simp add: iterate_batches_def start_def scripted_def loop_body_def eval_nat_numeral)

lemma scripted_policy: "policy_returns (scripted K r) net"
  by (simp add: policy_returns_def scripted_def)

text \<open>
  C8. Take an environment in which, from the reset that starts the run onwards, every
  episode ends after exactly \<open>K\<close> steps (\<open>K > 0\<close>) with reward 1 per step, whatever actions
  of its action space \<open>A\<close> are taken, and a sampler that returns actions of \<open>A\<close> only. Then
  every batch that \<open>iterate_batches\<close> yields holds exactly \<open>batch_size\<close> episodes, each with
  total reward \<open>K\<close> and exactly \<open>K\<close> steps. Such a run does not go on for ever without
  yielding: for a positive \<open>batch_size\<close>, within \<open>batch_size * K\<close> passes of the loop per
  batch it has yielded \<open>n\<close> batches or a collaborator has raised, and it is the former
  when the network, the softmax and the sampler always return.
\<close>

theorem iterate_batches_fixed_length:
  assumes "fixed_length_env w env0 A K" and "0 < K"
    and "\<forall>rs p act rs1. sample w rs p = Inr (act, rs1) \<longrightarrow> act \<in> A"
  shows "(\<forall>bs. iterate_batches w net batch_size env0 rng0 fuel n = Some (Inr bs) \<longrightarrow>
            (\<forall>b \<in> set bs. length b = batch_size \<and>
               (\<forall>ep \<in> set b. reward ep = real K \<and> length (steps ep) = K))) \<and>
         (0 < batch_size \<and> batch_size * K \<le> fuel \<longrightarrow>
            (\<exists>r. iterate_batches w net batch_size env0 rng0 fuel n = Some r \<and>
               (policy_returns w net \<longrightarrow> (\<exists>bs. r = Inr bs \<and> length bs = n))))"
proof (intro conjI allI impI ballI)
  from start_returns [OF assms(1)] obtain g where g: "start w env0 rng0 = Inr g" by blast
  have inv: "fixed_length_inv w env0 A K g"
    using assms(1,2) g by (rule start_fixed_length_inv)
  have ge: "g_batch g = []" using start_batch_empty [OF g] by simp
  {
    fix bs b
    assume "iterate_batches w net batch_size env0 rng0 fuel n = Some (Inr bs)" "b \<in> set bs"
    then have "take_batches w net batch_size fuel n g = Some (Inr bs)" "b \<in> set bs"
      using g by (auto simp: iterate_batches_def split: if_splits)
    from take_batches_fixed_length [OF assms(1,3) inv this]
    have r: "length b = batch_size \<and> list_all (good_episode K) b" .
    then show "length b = batch_size" by simp
    fix ep assume "ep \<in> set b"
    with r have "good_episode K ep" by (simp add: list_all_iff)
    then show "reward ep = real K" "length (steps ep) = K" by (simp_all add: good_episode_def)
  }
  assume a: "0 < batch_size \<and> batch_size * K \<le> fuel"
  show "\<exists>r. iterate_batches w net batch_size env0 rng0 fuel n = Some r \<and>
               (policy_returns w net \<longrightarrow> (\<exists>bs. r = Inr bs \<and> length bs = n))"
  proof (cases "n = 0")
    case True
    then show ?thesis by (simp add: iterate_batches_def)
  next
    case False
    with take_batches_returns [OF assms(1,3) _ _ inv ge, of batch_size fuel net n] a g
    show ?thesis by (simp add: iterate_batches_def)
  qed
qed

theorem iterate_batches_fixed_length_witness:
  "fixed_length_env (scripted 2 1) 0 {0} 2 \<and> (0::nat) < 2 \<and>
   (\<forall>rs p. sample (scripted 2 1) rs p = Inr (0, rs + 1)) \<and>
   policy_returns (scripted 2 1) 0 \<and>
   iterate_batches (scripted 2 1) 0 2 0 0 4 1 =
     Some (Inr [[\<lparr>reward = 2, steps = [\<lparr>observation = 0, action = 0\<rparr>, \<lparr>observation = 1, action = 0\<rparr>]\<rparr>,
            \<lparr>reward = 2, steps = [\<lparr>observation = 0, action = 0\<rparr>, \<lparr>observation = 1, action = 0\<rparr>]\<rparr>]])"
proof -
  have e: "fixed_length_env (scripted 2 1) 0 {0} 2" by (rule scripted_fixed_length) simp
  have s: "\<forall>rs p act rs1. sample (scripted 2 1) rs p = Inr (act, rs1) \<longrightarrow> act \<in> {0}"
    by (simp add: scripted_def)
  have s0: "\<forall>rs p. sample (scripted 2 1) rs p = Inr (0, rs + 1)"
    by (simp add: scripted_def)
  from iterate_batches_fixed_length [OF e _ s, of 0 2 0 4 1] e s0 scripted_policy [of 2 1 0] scripted_run
  show ?thesis by simp
qed

subsection \<open>Independence of the random generator\<close>

lemma loop_body_same_run:
  assumes w: "same_world w1 w2"
    and s1: "\<And>r p. map_sum id fst (sample w1 r p) = pick p"
    and s2: "\<And>r p. map_sum id fst (sample w2 r p) = pick p"
    and gh: "same_run g h"
  shows "rel_sum (=) (\<lambda>(o1, g1) (o2, h1). o1 = o2 \<and> same_run g1 h1)
           (loop_body w1 net batch_size g) (loop_body w2 net batch_size h)"
proof -
  have e: "g_batch h = g_batch g" "g_episode_reward h = g_episode_reward g"
    "g_episode_steps h = g_episode_steps g" "g_obs h = g_obs g" "g_env h = g_env g"
    using gh by (simp_all add: same_run_def)
  have ww: "env_reset w2 = env_reset w1" "env_step w2 = env_step w1"
    "forward w2 = forward w1" "softmax w2 = softmax w1"
    using w by (simp_all add: same_world_def)
  show ?thesis
  proof (cases "forward w1 net (g_obs g)")
    case (Inl err)
    then show ?thesis by (simp add: loop_body_def ww e)
  next
    case f: (Inr scores)
    show ?thesis
    proof (cases "softmax w1 scores")
      case (Inl err)
      then show ?thesis using f by (simp add: loop_body_def ww e)
    next
      case s: (Inr p)
      have pk: "map_sum id fst (sample w1 (g_rng g) p) = map_sum id fst (sample w2 (g_rng h) p)"
        using s1 [of "g_rng g" p] s2 [of "g_rng h" p] by simp
      show ?thesis
      proof (cases "sample w1 (g_rng g) p")
        case (Inl err)
        with pk have "sample w2 (g_rng h) p = Inl err"
          by (cases "sample w2 (g_rng h) p") simp_all
        with Inl f s show ?thesis by (simp add: loop_body_def ww e)
      next
        case (Inr ar)
        obtain a1 r1 where ar: "ar = (a1, r1)" by (cases ar) auto
        from pk Inr ar obtain r2 where c2: "sample w2 (g_rng h) p = Inr (a1, r2)"
          by (cases "sample w2 (g_rng h) p") auto
        note c1 = Inr [unfolded ar]
        show ?thesis
        proof (cases "env_step w1 (g_env g) a1")
          case (Inl err)
          with f s c1 c2 show ?thesis by (simp add: loop_body_def ww e)
        next
          case (Inr x)
          obtain next_obs rew is_done env1 where x: "x = ((next_obs, rew, is_done), env1)"
            by (cases x) auto
          note st = Inr [unfolded x]
          show ?thesis
          proof (cases "is_done \<longrightarrow> (\<exists>y. env_reset w1 env1 = Inr y)")
            case False
            then obtain err where "is_done" "env_reset w1 env1 = Inl err"
              by (cases "env_reset w1 env1") auto
            with f s c1 c2 st show ?thesis by (simp add: loop_body_def Let_def ww e)
          next
            case True
            then obtain next_obs1 env2 where
              rs: "is_done \<longrightarrow> env_reset w1 env1 = Inr (next_obs1, env2)" by fastforce
            have f2: "forward w2 net (g_obs h) = Inr scores" using f by (simp add: ww e)
            have s2': "softmax w2 scores = Inr p" using s by (simp add: ww)
            have st2: "env_step w2 (g_env h) a1 = Inr ((next_obs, rew, is_done), env1)"
              using st by (simp add: ww e)
            have rs2: "is_done \<longrightarrow> env_reset w2 env1 = Inr (next_obs1, env2)"
              using rs by (simp add: ww)
            show ?thesis
              unfolding loop_body_eq [OF f s c1 st rs] loop_body_eq [OF f2 s2' c2 st2 rs2]
              by (simp add: same_run_def e)
          qed
        qed
      qed
    qed
  qed
qed

lemma next_batch_same_run:
  assumes w: "same_world w1 w2"
    and s1: "\<And>r p. map_sum id fst (sample w1 r p) = pick p"
    and s2: "\<And>r p. map_sum id fst (sample w2 r p) = pick p"
  shows "same_run g h \<Longrightarrow>
     rel_option (rel_sum (=) (\<lambda>(b1, g1) (b2, h1). b1 = b2 \<and> same_run g1 h1))
       (next_batch w1 net batch_size fuel g) (next_batch w2 net batch_size fuel h)"
proof (induction fuel arbitrary: g h)
  case 0
  then show ?case by simp
next
  case (Suc fuel)
  note rel = loop_body_same_run [OF w s1 s2 Suc.prems, of net batch_size]
  show ?case
  proof (cases "loop_body w1 net batch_size g")
    case (Inl a)
    with rel show ?thesis by (cases "loop_body w2 net batch_size h") simp_all
  next
    case (Inr x)
    with rel obtain y where y: "loop_body w2 net batch_size h = Inr y"
      by (cases "loop_body w2 net batch_size h") simp_all
    obtain o1 g1 where x1: "x = (o1, g1)" by (cases x) auto
    obtain o2 h1 where y1: "y = (o2, h1)" by (cases y) auto
    from rel Inr y x1 y1 have o: "o2 = o1" and r: "same_run g1 h1" by simp_all
    show ?thesis
    proof (cases o1)
      case None
      then show ?thesis using Inr y x1 y1 o Suc.IH [OF r] by simp
    next
      case (Some b)
      then show ?thesis using Inr y x1 y1 o r by simp
    qed
  qed
qed

lemma take_batches_same_run:
  assumes w: "same_world w1 w2"
    and s1: "\<And>r p. map_sum id fst (sample w1 r p) = pick p"
    and s2: "\<And>r p. map_sum id fst (sample w2 r p) = pick p"
  shows "same_run g h \<Longrightarrow>
     take_batches w1 net batch_size fuel n g = take_batches w2 net batch_size fuel n h"
proof (induction n arbitrary: g h)
  case 0
  then show ?case by simp
next
  case (Suc n)
  from next_batch_same_run [OF w s1 s2 Suc.prems, of net batch_size fuel]
  show ?case
  proof (cases rule: option.rel_cases)
    case None
    then show ?thesis by simp
  next
    case (Some x y)
    show ?thesis
    proof (cases x)
      case (Inl a)
      with Some show ?thesis by (cases y) simp_all
    next
      case (Inr p)
      with Some obtain q where q: "y = Inr q" by (cases y) simp_all
      obtain b1 g1 where p1: "p = (b1, g1)" by (cases p) auto
      obtain b2 h1 where q1: "q = (b2, h1)" by (cases q) auto
      from Some Inr q p1 q1 have "b1 = b2" "same_run g1 h1" by simp_all
      with Some Inr q p1 q1 Suc.IH [of g1 h1] show ?thesis by simp
    qed
  qed
qed

lemma start_same_run:
  "same_world w1 w2 \<Longrightarrow>
     rel_sum (=) same_run (start w1 env0 rng1) (start w2 env0 rng2)"
  by (auto simp: same_world_def same_run_def start_def split: sum.splits prod.splits)

text \<open>
  C9. When the outcome of the sampler (the action, or the exception) is a function \<open>pick\<close>
  of the action probabilities alone, two runs of \<open>iterate_batches\<close> on the same
  environment, from the same environment state and with the same network, yield the
  same batches, whatever the samplers do with their own state and wherever that state
  starts.
\<close>

theorem iterate_batches_deterministic:
  assumes "same_world w1 w2"
    and "\<forall>r p. map_sum id fst (sample w1 r p) = pick p"
    and "\<forall>r p. map_sum id fst (sample w2 r p) = pick p"
  shows "iterate_batches w1 net batch_size env0 rng1 fuel n =
         iterate_batches w2 net batch_size env0 rng2 fuel n"
proof -
  note rel = start_same_run [OF assms(1), of env0 rng1 rng2]
  show ?thesis
  proof (cases "start w1 env0 rng1")
    case (Inl a)
    with rel show ?thesis
      by (cases "start w2 env0 rng2") (simp_all add: iterate_batches_def)
  next
    case (Inr g)
    with rel obtain h where h: "start w2 env0 rng2 = Inr h" and gh: "same_run g h"
      by (cases "start w2 env0 rng2") simp_all
    from assms(2,3) have s1: "\<And>r p. map_sum id fst (sample w1 r p) = pick p"
      and s2: "\<And>r p. map_sum id fst (sample w2 r p) = pick p" by simp_all
    from take_batches_same_run [OF assms(1) s1 s2 gh, of net batch_size fuel n] Inr h
    show ?thesis by (simp add: iterate_batches_def)
  qed
qed

theorem iterate_batches_deterministic_witness:
  "same_world (scripted 2 1) ((scripted 2 1)\<lparr>sample := (\<lambda>rs p. Inr (0, 2 * rs))\<rparr>) \<and>
   (\<forall>rs p. map_sum id fst (sample (scripted 2 1) rs p) = Inr 0) \<and>
   (\<forall>rs p. map_sum id fst
      (sample ((scripted 2 1)\<lparr>sample := (\<lambda>rs p. Inr (0, 2 * rs))\<rparr>) rs p) = Inr 0) \<and>
   iterate_batches (scripted 2 1) 0 2 0 0 4 1 =
     iterate_batches ((scripted 2 1)\<lparr>sample := (\<lambda>rs p. Inr (0, 2 * rs))\<rparr>) 0 2 0 5 4 1 \<and>
   iterate_batches ((scripted 2 1)\<lparr>sample := (\<lambda>rs p. Inr (0, 2 * rs))\<rparr>) 0 2 0 5 4 1 =
     Some (Inr [[\<lparr>reward = 2, steps = [\<lparr>observation = 0, action = 0\<rparr>, \<lparr>observation = 1, action = 0\<rparr>]\<rparr>,
            \<lparr>reward = 2, steps = [\<lparr>observation = 0, action = 0\<rparr>, \<lparr>observation = 1, action = 0\<rparr>]\<rparr>]])"
proof -
  have w: "same_world (scripted 2 1) ((scripted 2 1)\<lparr>sample := (\<lambda>rs p. Inr (0, 2 * rs))\<rparr>)"
    by (simp add: same_world_def)
  have s1: "\<forall>rs p. map_sum id fst (sample (scripted 2 1) rs p) = (\<lambda>p. Inr 0) p"
    by (simp add: scripted_def)
  have s2: "\<forall>rs p. map_sum id fst
      (sample ((scripted 2 1)\<lparr>sample := (\<lambda>rs p. Inr (0, 2 * rs))\<rparr>) rs p) = (\<lambda>p. Inr 0) p"
    by simp
  from iterate_batches_deterministic [OF w s1 s2, of 0 2 0 0 4 1 5] w s1 s2 scripted_run
  show ?thesis by simp
qed

subsection \<open>Generated batches always have elite steps\<close>

lemma loop_body_has_steps:
  assumes inv: "list_all has_steps (g_batch g)"
    and body: "loop_body w net batch_size g = Inr (out, g1)"
  shows "list_all has_steps (g_batch g1) \<and>
         (\<forall>b. out = Some b \<longrightarrow> b \<noteq> [] \<and> list_all has_steps b)"
proof -
  from loop_body_Inr [OF body]
  obtain scores act_probs act rng1 next_obs rew is_done env1 next_obs1 env2 where
    f: "forward w net (g_obs g) = Inr scores"
    and s: "softmax w scores = Inr act_probs"
    and c: "sample w (g_rng g) act_probs = Inr (act, rng1)"
    and e: "env_step w (g_env g) act = Inr ((next_obs, rew, is_done), env1)"
    and r: "is_done \<longrightarrow> env_reset w env1 = Inr (next_obs1, env2)"
    by blast
  show ?thesis
    using inv body unfolding loop_body_eq [OF f s c e r]
    by (auto simp: has_steps_def split: if_splits)
qed

lemma next_batch_has_steps:
  "list_all has_steps (g_batch g) \<Longrightarrow>
     next_batch w net batch_size fuel g = Some (Inr (b, g1)) \<Longrightarrow>
     list_all has_steps (g_batch g1) \<and> b \<noteq> [] \<and> list_all has_steps b"
proof (induction fuel arbitrary: g)
  case 0
  then show ?case by simp
next
  case (Suc fuel)
  from Suc.prems(2) obtain out g2 where body: "loop_body w net batch_size g = Inr (out, g2)"
    by (auto split: sum.splits)
  note step = loop_body_has_steps [OF Suc.prems(1) body]
  show ?case
  proof (cases out)
    case None
    with Suc.prems(2) body have "next_batch w net batch_size fuel g2 = Some (Inr (b, g1))" by simp
    with step Suc.IH [of g2] show ?thesis by simp
  next
    case (Some b')
    with Suc.prems(2) body have "b' = b" "g2 = g1" by simp_all
    with Some step show ?thesis by simp
  qed
qed

lemma take_batches_has_steps:
  "list_all has_steps (g_batch g) \<Longrightarrow>
     take_batches w net batch_size fuel n g = Some (Inr bs) \<Longrightarrow>
     b \<in> set bs \<Longrightarrow> b \<noteq> [] \<and> list_all has_steps b"
proof (induction n arbitrary: g bs)
  case 0
  then show ?case by simp
next
  case (Suc n)
  from Suc.prems(2) obtain b1 g1 bs1 where
    nb: "next_batch w net batch_size fuel g = Some (Inr (b1, g1))"
    and tb: "take_batches w net batch_size fuel n g1 = Some (Inr bs1)"
    and bs: "bs = b1 # bs1"
    by (auto split: option.splits sum.splits)
  note first = next_batch_has_steps [OF Suc.prems(1) nb]
  from Suc.prems(3) bs have "b = b1 \<or> b \<in> set bs1" by auto
  then show ?case using first Suc.IH [OF _ tb] by blast
qed

lemma filter_batch_bounds:
  assumes "batch \<noteq> []" "0 \<le> pct" "pct \<le> 100"
  shows "\<exists>tobs tact rb rm. filter_batch batch pct = Inr (tobs, tact, rb, rm) \<and>
           Min (reward ` set batch) \<le> rb \<and> rb \<le> Max (reward ` set batch)"
proof -
  have ne: "map reward batch \<noteq> []" using assms(1) by simp
  from percentile_defined [OF ne assms(2,3)]
  obtain rb where p: "percentile (map reward batch) pct = Inr rb" by auto
  from percentile_bounds [OF ne assms(2,3) p]
  have b: "Min (reward ` set batch) \<le> rb \<and> rb \<le> Max (reward ` set batch)" by simp
  obtain tobs tact where "elite_loop batch rb ([], []) = (tobs, tact)"
    by (cases "elite_loop batch rb ([], [])") auto
  with p have "filter_batch batch pct = Inr (tobs, tact, rb, mean (map reward batch))"
    by (simp add: filter_batch_Inr)
  with b show ?thesis by blast
qed

lemma elite_loop_nonempty:
  assumes "ep \<in> set batch" "rb \<le> reward ep" "steps ep \<noteq> []"
    and "elite_loop batch rb ([], []) = (tobs, tact)"
  shows "tobs \<noteq> [] \<and> tact \<noteq> []"
proof -
  have "ep \<in> set (filter (\<lambda>e. rb \<le> reward e) batch)" using assms(1,2) by simp
  then have ne: "concat (map steps (filter (\<lambda>e. rb \<le> reward e) batch)) \<noteq> []"
    using assms(3) by auto
  from assms(4) have "tobs = map observation (concat (map steps (filter (\<lambda>e. rb \<le> reward e) batch)))"
    "tact = map action (concat (map steps (filter (\<lambda>e. rb \<le> reward e) batch)))"
    by (simp_all add: elite_loop_filter)
  with ne show ?thesis by simp
qed


text \<open>
  C10. For every non-empty batch and every percentile in [0, 100], \<open>filter_batch\<close> returns
  a \<open>reward_bound\<close> between the smallest and the largest episode reward, so an episode with
  the largest reward is never below the bound. Every batch that \<open>iterate_batches\<close> yields
  is non-empty and each of its episodes has at least one step; hence \<open>filter_batch\<close> on
  such a batch returns non-empty observation and action sequences.
\<close>

theorem generated_batches_have_elites:
  "(batch \<noteq> [] \<and> 0 \<le> pct \<and> pct \<le> 100 \<longrightarrow>
      (\<exists>train_obs train_act reward_bound reward_mean.
         filter_batch batch pct = Inr (train_obs, train_act, reward_bound, reward_mean) \<and>
         Min (reward ` set batch) \<le> reward_bound \<and> reward_bound \<le> Max (reward ` set batch) \<and>
         (\<forall>ep \<in> set batch. reward ep = Max (reward ` set batch) \<longrightarrow>
            reward_bound \<le> reward ep))) \<and>
   (iterate_batches w net batch_size env0 rng0 fuel n = Some (Inr bs) \<and> b \<in> set bs \<and>
    0 \<le> pct \<and> pct \<le> 100 \<longrightarrow>
      b \<noteq> [] \<and> (\<forall>ep \<in> set b. steps ep \<noteq> []) \<and>
      (\<exists>train_obs train_act reward_bound reward_mean.
         filter_batch b pct = Inr (train_obs, train_act, reward_bound, reward_mean) \<and>
         train_obs \<noteq> [] \<and> train_act \<noteq> []))"
proof (intro conjI impI)
  assume "batch \<noteq> [] \<and> 0 \<le> pct \<and> pct \<le> 100"
  then show "\<exists>train_obs train_act reward_bound reward_mean.
         filter_batch batch pct = Inr (train_obs, train_act, reward_bound, reward_mean) \<and>
         Min (reward ` set batch) \<le> reward_bound \<and> reward_bound \<le> Max (reward ` set batch) \<and>
         (\<forall>ep \<in> set batch. reward ep = Max (reward ` set batch) \<longrightarrow>
            reward_bound \<le> reward ep)"
    using filter_batch_bounds [of batch pct] by fastforce
next
  assume a: "iterate_batches w net batch_size env0 rng0 fuel n = Some (Inr bs) \<and> b \<in> set bs \<and>
    0 \<le> pct \<and> pct \<le> 100"
  then have n: "n \<noteq> 0" by (auto simp: iterate_batches_def split: if_splits)
  with a obtain g where g: "start w env0 rng0 = Inr g"
    and tb: "take_batches w net batch_size fuel n g = Some (Inr bs)"
    by (auto simp: iterate_batches_def split: sum.splits)
  have "list_all has_steps (g_batch g)" using start_batch_empty [OF g] by simp
  from take_batches_has_steps [OF this tb] a
  have ne: "b \<noteq> []" and hs: "list_all has_steps b" by simp_all
  show "b \<noteq> []" by (rule ne)
  show st: "\<forall>ep \<in> set b. steps ep \<noteq> []" using hs by (simp add: list_all_iff has_steps_def)
  from filter_batch_bounds [OF ne] a obtain tobs tact rb rm where
    fb: "filter_batch b pct = Inr (tobs, tact, rb, rm)" and le: "rb \<le> Max (reward ` set b)"
    by blast
  have "Max (reward ` set b) \<in> reward ` set b" using ne by (intro Max_in) simp_all
  then obtain ep where ep: "ep \<in> set b" "reward ep = Max (reward ` set b)" by auto
  from fb have "elite_loop b rb ([], []) = (tobs, tact)" by (simp add: filter_batch_Inr)
  from elite_loop_nonempty [OF ep(1) _ _ this] le ep st
  have "tobs \<noteq> [] \<and> tact \<noteq> []" by simp
  with fb show "\<exists>train_obs train_act reward_bound reward_mean.
         filter_batch b pct = Inr (train_obs, train_act, reward_bound, reward_mean) \<and>
         train_obs \<noteq> [] \<and> train_act \<noteq> []" by blast
qed

theorem generated_batches_have_elites_witness:
  "iterate_batches (scripted 2 1) 0 2 0 0 4 1 =
     Some (Inr [[\<lparr>reward = 2, steps = [\<lparr>observation = 0, action = 0\<rparr>, \<lparr>observation = 1, action = 0\<rparr>]\<rparr>,
            \<lparr>reward = 2, steps = [\<lparr>observation = 0, action = 0\<rparr>, \<lparr>observation = 1, action = 0\<rparr>]\<rparr>]]) \<and>
   (0::real) \<le> 70 \<and> (70::real) \<le> 100 \<and>
   filter_batch
      [\<lparr>reward = 2, steps = [\<lparr>observation = 0::nat, action = 0\<rparr>, \<lparr>observation = 1, action = 0\<rparr>]\<rparr>,
       \<lparr>reward = 2, steps = [\<lparr>observation = 0, action = 0\<rparr>, \<lparr>observation = 1, action = 0\<rparr>]\<rparr>] 70 =
     Inr ([0, 1, 0, 1], [0, 0, 0, 0], 2, 2)"
  using generated_batches_have_elites
     [of "[\<lparr>reward = 2, steps = [\<lparr>observation = 0::nat, action = 0\<rparr>, \<lparr>observation = 1, action = 0\<rparr>]\<rparr>,
       \<lparr>reward = 2, steps = [\<lparr>observation = 0, action = 0\<rparr>, \<lparr>observation = 1, action = 0\<rparr>]\<rparr>]"
         70 "scripted 2 1" 0 2 0 0 4 1
         "[[\<lparr>reward = 2, steps = [\<lparr>observation = 0::nat, action = 0\<rparr>, \<lparr>observation = 1, action = 0\<rparr>]\<rparr>,
       \<lparr>reward = 2, steps = [\<lparr>observation = 0, action = 0\<rparr>, \<lparr>observation = 1, action = 0\<rparr>]\<rparr>]]"
         "[\<lparr>reward = 2, steps = [\<lparr>observation = 0::nat, action = 0\<rparr>, \<lparr>observation = 1, action = 0\<rparr>]\<rparr>,
       \<lparr>reward = 2, steps = [\<lparr>observation = 0, action = 0\<rparr>, \<lparr>observation = 1, action = 0\<rparr>]\<rparr>]"]
    scripted_run
  by (simp add: filter_batch_def percentile_def mean_def Let_def)

subsection \<open>Scores are not checked\<close>

text \<open>
  C7 does not hold of the code. The claim is that a non-finite score makes the
  normalisation step fail with a defined error, so that no non-finite value reaches the
  sampling step. With the scores \<open>[-inf, 0]\<close> the normalisation returns the probabilities
  \<open>[0, 1]\<close> and the pass of the generator ends as any other: action 1 is taken and
  recorded. With the scores \<open>[NaN, 0]\<close> the normalisation returns \<open>[NaN, NaN]\<close>, again
  without an error, and it is the sampler that rejects them.
\<close>

theorem nonfinite_score_counterexample:
  "forward nonfinite_scorer 0 0 = Inr [NegInf, Finite 0] \<and>
   softmax nonfinite_scorer [NegInf, Finite 0] = Inr [Finite 0, Finite 1] \<and>
   loop_body nonfinite_scorer 0 16
     \<lparr>g_batch = [], g_episode_reward = 0, g_episode_steps = [], g_obs = 0, g_env = 0, g_rng = ()\<rparr> =
     Inr (None, \<lparr>g_batch = [], g_episode_reward = 1,
             g_episode_steps = [\<lparr>observation = 0, action = 1\<rparr>],
             g_obs = 1, g_env = 1, g_rng = ()\<rparr>) \<and>
   forward nonfinite_scorer 1 0 = Inr [NaN, Finite 0] \<and>
   softmax nonfinite_scorer [NaN, Finite 0] = Inr [NaN, NaN] \<and>
   sample nonfinite_scorer () [NaN, NaN] = Inl ValueError"
  by (simp add: nonfinite_scorer_def softmax_fl_def choice_fl_def loop_body_def)

text \<open>
  C7, as the code has it. \<open>iterate_batches\<close> checks nothing about the scores. A pass fails
  exactly when one of its library calls raises, in the order network, softmax, sampler,
  \<^verbatim>\<open>env.step\<close>, \<^verbatim>\<open>env.reset\<close>, and with that call's exception. When they return, the
  probabilities that the softmax returned are the ones handed to the sampler, the
  environment is stepped with the action that the sampler returned, and that action is
  recorded with the observation. Over a whole run, every exception that leaves
  \<open>iterate_batches\<close> is one that a collaborator raised.
\<close>

theorem loop_body_unchecked:
  "(loop_body w net batch_size g = Inl e \<longleftrightarrow>
     forward w net (g_obs g) = Inl e \<or>
     (\<exists>scores. forward w net (g_obs g) = Inr scores \<and>
        (softmax w scores = Inl e \<or>
         (\<exists>act_probs. softmax w scores = Inr act_probs \<and>
            (sample w (g_rng g) act_probs = Inl e \<or>
             (\<exists>act rng1. sample w (g_rng g) act_probs = Inr (act, rng1) \<and>
                (env_step w (g_env g) act = Inl e \<or>
                 (\<exists>next_obs rew env1.
                    env_step w (g_env g) act = Inr ((next_obs, rew, True), env1) \<and>
                    env_reset w env1 = Inl e)))))))) \<and>
   (forward w net (g_obs g) = Inr scores \<and> softmax w scores = Inr act_probs \<and>
    sample w (g_rng g) act_probs = Inr (act, rng1) \<and>
    env_step w (g_env g) act = Inr ((next_obs, rew, is_done), env1) \<and>
    (is_done \<longrightarrow> env_reset w env1 = Inr (next_obs1, env2)) \<longrightarrow>
      loop_body w net batch_size g =
        Inr (if is_done then
           (if Suc (length (g_batch g)) = batch_size
            then Some (g_batch g @ [\<lparr>reward = g_episode_reward g + rew,
                    steps = g_episode_steps g @ [\<lparr>observation = g_obs g, action = act\<rparr>]\<rparr>])
            else None,
            \<lparr>g_batch = (if Suc (length (g_batch g)) = batch_size then []
                        else g_batch g @ [\<lparr>reward = g_episode_reward g + rew,
                    steps = g_episode_steps g @ [\<lparr>observation = g_obs g, action = act\<rparr>]\<rparr>]),
             g_episode_reward = 0, g_episode_steps = [],
             g_obs = next_obs1, g_env = env2, g_rng = rng1\<rparr>)
         else (None,
               \<lparr>g_batch = g_batch g, g_episode_reward = g_episode_reward g + rew,
                g_episode_steps = g_episode_steps g @ [\<lparr>observation = g_obs g, action = act\<rparr>],
                g_obs = next_obs, g_env = env1, g_rng = rng1\<rparr>))) \<and>
   (iterate_batches w net batch_size env0 rng0 fuel n = Some (Inl e) \<longrightarrow> raised_by w net e)"
proof (intro conjI impI)
  show "loop_body w net batch_size g = Inl e \<longleftrightarrow>
     forward w net (g_obs g) = Inl e \<or>
     (\<exists>scores. forward w net (g_obs g) = Inr scores \<and>
        (softmax w scores = Inl e \<or>
         (\<exists>act_probs. softmax w scores = Inr act_probs \<and>
            (sample w (g_rng g) act_probs = Inl e \<or>
             (\<exists>act rng1. sample w (g_rng g) act_probs = Inr (act, rng1) \<and>
                (env_step w (g_env g) act = Inl e \<or>
                 (\<exists>next_obs rew env1.
                    env_step w (g_env g) act = Inr ((next_obs, rew, True), env1) \<and>
                    env_reset w env1 = Inl e)))))))"
    by (rule loop_body_Inl_iff)
next
  assume "forward w net (g_obs g) = Inr scores \<and> softmax w scores = Inr act_probs \<and>
    sample w (g_rng g) act_probs = Inr (act, rng1) \<and>
    env_step w (g_env g) act = Inr ((next_obs, rew, is_done), env1) \<and>
    (is_done \<longrightarrow> env_reset w env1 = Inr (next_obs1, env2))"
  then have f: "forward w net (g_obs g) = Inr scores" and s: "softmax w scores = Inr act_probs"
    and c: "sample w (g_rng g) act_probs = Inr (act, rng1)"
    and e: "env_step w (g_env g) act = Inr ((next_obs, rew, is_done), env1)"
    and r: "is_done \<longrightarrow> env_reset w env1 = Inr (next_obs1, env2)"
    by simp_all
  show "loop_body w net batch_size g =
        Inr (if is_done then
           (if Suc (length (g_batch g)) = batch_size
            then Some (g_batch g @ [\<lparr>reward = g_episode_reward g + rew,
                    steps = g_episode_steps g @ [\<lparr>observation = g_obs g, action = act\<rparr>]\<rparr>])
            else None,
            \<lparr>g_batch = (if Suc (length (g_batch g)) = batch_size then []
                        else g_batch g @ [\<lparr>reward = g_episode_reward g + rew,
                    steps = g_episode_steps g @ [\<lparr>observation = g_obs g, action = act\<rparr>]\<rparr>]),
             g_episode_reward = 0, g_episode_steps = [],
             g_obs = next_obs1, g_env = env2, g_rng = rng1\<rparr>)
         else (None,
               \<lparr>g_batch = g_batch g, g_episode_reward = g_episode_reward g + rew,
                g_episode_steps = g_episode_steps g @ [\<lparr>observation = g_obs g, action = act\<rparr>],
                g_obs = next_obs, g_env = env1, g_rng = rng1\<rparr>))"
    by (rule loop_body_eq [OF f s c e r])
next
  assume "iterate_batches w net batch_size env0 rng0 fuel n = Some (Inl e)"
  then show "raised_by w net e" by (rule iterate_batches_Inl)
qed

theorem loop_body_unchecked_witness:
  "forward nonfinite_scorer 0 5 = Inr [NegInf, Finite 0] \<and>
   softmax nonfinite_scorer [NegInf, Finite 0] = Inr [Finite 0, Finite 1] \<and>
   sample nonfinite_scorer () [Finite 0, Finite 1] = Inr (1, ()) \<and>
   env_step nonfinite_scorer 5 1 = Inr ((6, 1, False), 6) \<and>
   loop_body nonfinite_scorer 0 16
     \<lparr>g_batch = [], g_episode_reward = 5, g_episode_steps = [], g_obs = 5, g_env = 5, g_rng = ()\<rparr> =
     Inr (None, \<lparr>g_batch = [], g_episode_reward = 6,
             g_episode_steps = [\<lparr>observation = 5, action = 1\<rparr>],
             g_obs = 6, g_env = 6, g_rng = ()\<rparr>) \<and>
   iterate_batches nonfinite_scorer 1 16 0 () 3 1 = Some (Inl ValueError) \<and>
   raised_by nonfinite_scorer 1 ValueError"
proof -
  have f: "forward nonfinite_scorer 0 5 = Inr [NegInf, Finite 0]"
    by (simp add: nonfinite_scorer_def)
  have s: "softmax nonfinite_scorer [NegInf, Finite 0] = Inr [Finite 0, Finite 1]"
    by (simp add: nonfinite_scorer_def softmax_fl_def)
  have c: "sample nonfinite_scorer () [Finite 0, Finite 1] = Inr (1, ())"
    by (simp add: nonfinite_scorer_def choice_fl_def)
  have e: "env_step nonfinite_scorer 5 1 = Inr ((6, 1, False), 6)"
    by (simp add: nonfinite_scorer_def)
  have i: "iterate_batches nonfinite_scorer 1 16 0 () 3 1 = Some (Inl ValueError)"
    by (simp add: iterate_batches_def start_def nonfinite_scorer_def softmax_fl_def
        choice_fl_def loop_body_def eval_nat_numeral)
  note inst = loop_body_unchecked [of nonfinite_scorer 0 16
      "\<lparr>g_batch = [], g_episode_reward = 5, g_episode_steps = [], g_obs = 5, g_env = 5, g_rng = ()\<rparr>"
      ValueError "[NegInf, Finite 0]" "[Finite 0, Finite 1]" 1 "()" 6 1 False 6 6 6]
  from inst f s c e
  have l: "loop_body nonfinite_scorer 0 16
     \<lparr>g_batch = [], g_episode_reward = 5, g_episode_steps = [], g_obs = 5, g_env = 5, g_rng = ()\<rparr> =
     Inr (None, \<lparr>g_batch = [], g_episode_reward = 6,
             g_episode_steps = [\<lparr>observation = 5, action = 1\<rparr>],
             g_obs = 6, g_env = 6, g_rng = ()\<rparr>)"
    by simp
  from loop_body_unchecked [of nonfinite_scorer 1 16 _ ValueError _ _ _ _ _ _ _ _ _ _ 0 "()" 3 1] i
  have r: "raised_by nonfinite_scorer 1 ValueError" by blast
  show ?thesis by (intro conjI) (rule f s c e l i r)+
qed

section \<open>The training loop: stopping and the update\<close>


lemma train_step_eq:
  assumes "filter_batch b PERCENTILE = Inr (obs_v, acts_v, reward_b, reward_m)"
    and "optimize w (t_net t) obs_v acts_v = Inr (net1, loss)"
  shows "train_step w t b =
     Inr (\<lparr>t_net = net1, pulled = pulled t + 1,
           printed = printed t @ [(pulled t, loss, reward_m, reward_b)]\<rparr>, 199 < reward_m)"
  using assms by (simp add: train_step_def)

lemma train_step_Inr:
  assumes "train_step w t b = Inr (t1, solved)"
  shows "\<exists>loss reward_m reward_b.
     pulled t1 = pulled t + 1 \<and> printed t1 = printed t @ [(pulled t, loss, reward_m, reward_b)] \<and>
     solved = (199 < reward_m)"
  using assms by (auto simp: train_step_def split: sum.splits prod.splits)

lemma main_loop_solved:
  "main_loop w fuel iters (t, g) = Some (Inr t2) \<Longrightarrow>
     \<exists>ls. ls \<noteq> [] \<and> printed t2 = printed t @ ls \<and> pulled t2 = pulled t + length ls \<and>
       199 < line_mean (last ls) \<and> list_all (\<lambda>l. line_mean l \<le> 199) (butlast ls)"
proof (induction iters arbitrary: t g)
  case 0
  then show ?case by simp
next
  case (Suc iters)
  from Suc.prems obtain b g1 where
    nb: "next_batch w (t_net t) BATCH_SIZE fuel g = Some (Inr (b, g1))"
    by (auto split: option.splits sum.splits)
  with Suc.prems obtain t1 solved where ts: "train_step w t b = Inr (t1, solved)"
    by (auto split: sum.splits)
  from train_step_Inr [OF ts] obtain loss reward_m reward_b where
    p: "pulled t1 = pulled t + 1"
    and pr: "printed t1 = printed t @ [(pulled t, loss, reward_m, reward_b)]"
    and sv: "solved = (199 < reward_m)" by blast
  show ?case
  proof (cases solved)
    case True
    with Suc.prems nb ts have "t2 = t1" by simp
    with p pr sv True show ?thesis
      by (intro exI [of _ "[(pulled t, loss, reward_m, reward_b)]"]) (simp add: line_mean_def)
  next
    case False
    with Suc.prems nb ts have "main_loop w fuel iters (t1, g1) = Some (Inr t2)" by simp
    from Suc.IH [OF this] obtain ls where ls: "ls \<noteq> []" "printed t2 = printed t1 @ ls"
      "pulled t2 = pulled t1 + length ls" "199 < line_mean (last ls)"
      "list_all (\<lambda>l. line_mean l \<le> 199) (butlast ls)" by blast
    have "line_mean (pulled t, loss, reward_m, reward_b) \<le> 199"
      using False sv by (simp add: line_mean_def)
    with ls p pr show ?thesis
      by (intro exI [of _ "(pulled t, loss, reward_m, reward_b) # ls"]) simp
  qed
qed

lemma scripted_solved_pull:
  "next_batch (scripted 1 200) 0 BATCH_SIZE 16
     \<lparr>g_batch = [], g_episode_reward = 0, g_episode_steps = [],
      g_obs = 0, g_env = 0, g_rng = 0\<rparr> =
     Some (Inr (replicate 16 solved_episode,
           \<lparr>g_batch = [], g_episode_reward = 0, g_episode_steps = [],
            g_obs = 0, g_env = 0, g_rng = 16\<rparr>))"
  by (simp add: BATCH_SIZE_def scripted_def loop_body_def solved_episode_def
      eval_nat_numeral)

lemma scripted_solved_filter:
  "filter_batch (replicate 16 solved_episode) PERCENTILE =
     Inr (replicate 16 0, replicate 16 0, 200, 200)"
  by (simp add: filter_batch_def percentile_def mean_def PERCENTILE_def solved_episode_def
      Let_def eval_nat_numeral)

text \<open>
  C5. An iteration of the training loop that has pulled a batch and made its update
  leaves the loop, without pulling again, when the batch's \<open>reward_mean\<close> is above 199,
  and otherwise goes on to pull the next batch with the updated network. Over a whole
  run that ends with "Solved!": one line was printed per batch pulled, the last line has
  a \<open>reward_mean\<close> above 199 and every line before it has one of at most 199.
\<close>

theorem main_loop_stops_iff:
  "(next_batch w (t_net t) BATCH_SIZE fuel g = Some (Inr (b, g1)) \<and>
    filter_batch b PERCENTILE = Inr (obs_v, acts_v, reward_b, reward_m) \<and>
    optimize w (t_net t) obs_v acts_v = Inr (net1, loss) \<longrightarrow>
      main_loop w fuel (Suc iters) (t, g) =
        (if 199 < reward_m
         then Some (Inr \<lparr>t_net = net1, pulled = pulled t + 1,
                          printed = printed t @ [(pulled t, loss, reward_m, reward_b)]\<rparr>)
         else main_loop w fuel iters
                (\<lparr>t_net = net1, pulled = pulled t + 1,
                  printed = printed t @ [(pulled t, loss, reward_m, reward_b)]\<rparr>, g1))) \<and>
   (main_loop w fuel iters (t, g) = Some (Inr t2) \<longrightarrow>
      (\<exists>ls. ls \<noteq> [] \<and> printed t2 = printed t @ ls \<and> pulled t2 = pulled t + length ls \<and>
         199 < line_mean (last ls) \<and> (\<forall>l \<in> set (butlast ls). line_mean l \<le> 199)))"
proof (intro conjI impI)
  assume a: "next_batch w (t_net t) BATCH_SIZE fuel g = Some (Inr (b, g1)) \<and>
    filter_batch b PERCENTILE = Inr (obs_v, acts_v, reward_b, reward_m) \<and>
    optimize w (t_net t) obs_v acts_v = Inr (net1, loss)"
  then have "train_step w t b =
     Inr (\<lparr>t_net = net1, pulled = pulled t + 1,
           printed = printed t @ [(pulled t, loss, reward_m, reward_b)]\<rparr>, 199 < reward_m)"
    using train_step_eq [of b obs_v acts_v reward_b reward_m w t net1 loss] by simp
  with a show "main_loop w fuel (Suc iters) (t, g) =
        (if 199 < reward_m
         then Some (Inr \<lparr>t_net = net1, pulled = pulled t + 1,
                          printed = printed t @ [(pulled t, loss, reward_m, reward_b)]\<rparr>)
         else main_loop w fuel iters
                (\<lparr>t_net = net1, pulled = pulled t + 1,
                  printed = printed t @ [(pulled t, loss, reward_m, reward_b)]\<rparr>, g1))"
    by simp
next
  assume "main_loop w fuel iters (t, g) = Some (Inr t2)"
  from main_loop_solved [OF this]
  show "\<exists>ls. ls \<noteq> [] \<and> printed t2 = printed t @ ls \<and> pulled t2 = pulled t + length ls \<and>
         199 < line_mean (last ls) \<and> (\<forall>l \<in> set (butlast ls). line_mean l \<le> 199)"
    by (simp add: list_all_iff)
qed

theorem main_loop_stops_iff_witness:
  "next_batch (scripted 1 200) 0 BATCH_SIZE 16
     \<lparr>g_batch = [], g_episode_reward = 0, g_episode_steps = [],
      g_obs = 0, g_env = 0, g_rng = 0\<rparr> =
     Some (Inr (replicate 16 solved_episode,
           \<lparr>g_batch = [], g_episode_reward = 0, g_episode_steps = [],
            g_obs = 0, g_env = 0, g_rng = 16\<rparr>)) \<and>
   filter_batch (replicate 16 solved_episode) PERCENTILE =
     Inr (replicate 16 0, replicate 16 0, 200, 200) \<and>
   optimize (scripted 1 200) 0 (replicate 16 0) (replicate 16 0) = Inr (1, 0) \<and>
   main_loop (scripted 1 200) 16 1
     (\<lparr>t_net = 0, pulled = 0, printed = []\<rparr>,
      \<lparr>g_batch = [], g_episode_reward = 0, g_episode_steps = [],
       g_obs = 0, g_env = 0, g_rng = 0\<rparr>) =
     Some (Inr \<lparr>t_net = 1, pulled = 1, printed = [(0, 0, 200, 200)]\<rparr>)"
proof -
  have o: "optimize (scripted 1 200) (t_net \<lparr>t_net = 0, pulled = 0, printed = []\<rparr>)
             (replicate 16 0) (replicate 16 0) = Inr (1, 0)"
    by (simp add: scripted_def eval_nat_numeral)
  have p: "next_batch (scripted 1 200) (t_net \<lparr>t_net = 0::nat, pulled = 0, printed = []\<rparr>)
     BATCH_SIZE 16 \<lparr>g_batch = [], g_episode_reward = 0, g_episode_steps = [],
      g_obs = 0, g_env = 0, g_rng = 0\<rparr> =
     Some (Inr (replicate 16 solved_episode,
           \<lparr>g_batch = [], g_episode_reward = 0, g_episode_steps = [],
            g_obs = 0, g_env = 0, g_rng = 16\<rparr>))"
    using scripted_solved_pull by simp
  from main_loop_stops_iff [of "scripted 1 200" "\<lparr>t_net = 0, pulled = 0, printed = []\<rparr>" 16
      "\<lparr>g_batch = [], g_episode_reward = 0, g_episode_steps = [],
       g_obs = 0, g_env = 0, g_rng = 0\<rparr>" "replicate 16 solved_episode"
      "\<lparr>g_batch = [], g_episode_reward = 0, g_episode_steps = [],
            g_obs = 0, g_env = 0, g_rng = 16\<rparr>" "replicate 16 0" "replicate 16 0" 200 200 1 0 0]
    p o scripted_solved_filter scripted_solved_pull
  show ?thesis by simp
qed

subsection \<open>Training sequences are not checked\<close>







end
